theory Spec2Isabelle
  imports Main "HOL-Library.Multiset" "HOL-Library.Sublist"
begin

section \<open>Shared runtime notions\<close>

subsection \<open>Errors, panic values and formatting\<close>

text \<open>
  Go \<open>error\<close> values that occur in the modelled packages: the two context errors and the
  errors built with \<open>fmt.Errorf\<close>, which carry nothing but their message. \<open>JobError\<close>
  stands for whatever error a user's job function returns.
\<close>

datatype go_error = Canceled | DeadlineExceeded | Errorf string | JobError string

fun error_text :: "go_error \<Rightarrow> string" where
  "error_text Canceled = ''context canceled''"
| "error_text DeadlineExceeded = ''context deadline exceeded''"
| "error_text (Errorf m) = m"
| "error_text (JobError m) = m"

text \<open>
  A recovered panic value is either an \<open>error\<close> or some other value (a string, say),
  shown here by its \<open>%v\<close> rendering.
\<close>

datatype panic_value = PanicError go_error | PanicOther string

fun fmt_v :: "panic_value \<Rightarrow> string" where
  "fmt_v (PanicError e) = error_text e"
| "fmt_v (PanicOther s) = s"

text \<open>\<open>%d\<close> for an \<open>int\<close>.\<close>

definition digit :: "nat \<Rightarrow> char" where
  "digit d = ''0123456789'' ! d"

function fmt_nat :: "nat \<Rightarrow> string" where
  "fmt_nat n = (if n < 10 then [digit n] else fmt_nat (n div 10) @ [digit (n mod 10)])"
  by pat_completeness auto
termination
  by (relation "measure id") auto

definition fmt_d :: "int \<Rightarrow> string" where
  "fmt_d i = (if i < 0 then CHR ''-'' # fmt_nat (nat (- i)) else fmt_nat (nat i))"

subsection \<open>The reporting sink\<close>

text \<open>
  \<open>logger.WriteInfoLog\<close>, \<open>WriteWarnLog\<close> and \<open>WriteErrorLog\<close> append an entry to the
  process log; the fields are those of \<open>logger_wrapper.LogEntry\<close> that the modelled code
  fills in.
\<close>

datatype level = InfoLog | WarnLog | ErrorLog

record LogEntry =
  Msg :: string
  Component :: string
  Method :: string
  Args :: string
  Error :: "go_error option"

type_synonym log = "(level \<times> LogEntry) list"

definition entry :: "string \<Rightarrow> string \<Rightarrow> string \<Rightarrow> LogEntry" where
  "entry m c f = \<lparr>Msg = m, Component = c, Method = f, Args = [], Error = None\<rparr>"

subsection \<open>Contexts\<close>

text \<open>
  A \<open>context.Context\<close> is the chain of derivations it was built by. Each derived context
  has its own identity \<open>i\<close>: its cancel function raises \<open>CancelCalled i\<close>, its timer
  \<open>TimerFired i\<close>. What has happened so far is a list of such events, earliest first.
  A context is ended by the first event that ends it or one of its ancestors, and reports
  \<open>Canceled\<close> or \<open>DeadlineExceeded\<close> accordingly; a \<open>WithTimeout\<close> whose duration is not
  positive is ended from its creation.
\<close>

datatype "context" = Background | WithCancel "context" nat | WithTimeout "context" nat int

datatype ctx_event = CancelCalled nat | TimerFired nat

fun ends :: "ctx_event \<Rightarrow> context \<Rightarrow> go_error option" where
  "ends e Background = None"
| "ends e (WithCancel parent i) = (if e = CancelCalled i then Some Canceled else ends e parent)"
| "ends e (WithTimeout parent i d) =
     (if e = CancelCalled i then Some Canceled
      else if e = TimerFired i then Some DeadlineExceeded
      else ends e parent)"

fun born_done :: "context \<Rightarrow> go_error option" where
  "born_done Background = None"
| "born_done (WithCancel parent i) = born_done parent"
| "born_done (WithTimeout parent i d) =
     (case born_done parent of
        Some e \<Rightarrow> Some e
      | None \<Rightarrow> if d \<le> 0 then Some DeadlineExceeded else None)"

fun first_end :: "ctx_event list \<Rightarrow> context \<Rightarrow> go_error option" where
  "first_end [] c = None"
| "first_end (e # es) c = (case ends e c of Some x \<Rightarrow> Some x | None \<Rightarrow> first_end es c)"

text \<open>\<open>ctx.Err()\<close> and whether \<open>ctx.Done()\<close> is closed, after the events \<open>h\<close>.\<close>

definition Err :: "ctx_event list \<Rightarrow> context \<Rightarrow> go_error option" where
  "Err h c = (case born_done c of Some e \<Rightarrow> Some e | None \<Rightarrow> first_end h c)"

definition Done :: "ctx_event list \<Rightarrow> context \<Rightarrow> bool" where
  "Done h c = (Err h c \<noteq> None)"

subsection \<open>Package utils: GoRecover\<close>

text \<open>
  \<open>GoRecover(ctx, fn)\<close> starts a goroutine. There, a \<open>select\<close> with a \<open>default\<close> case
  looks at \<open>ctx.Done()\<close> once: if it is closed the goroutine logs and returns, otherwise
  it calls \<open>fn(ctx)\<close>. \<open>h\<close> is what has happened when the goroutine reaches that \<open>select\<close>.
  A panic of \<open>fn\<close> is recovered; the handler asserts that the panic value is an \<open>error\<close>,
  so a panic with any other value panics again inside the handler.
\<close>

datatype 'a goroutine = CancelledBeforeStart | Ran 'a | Recovered go_error | Crashed

definition GoRecover ::
  "ctx_event list \<Rightarrow> context \<Rightarrow> (context \<Rightarrow> panic_value + 'a) \<Rightarrow> 'a goroutine \<times> log" where
  "GoRecover h c fn =
     (if Done h c
      then (CancelledBeforeStart,
            [(InfoLog, entry ''goroutine cancelled before start'' ''utils'' ''GoRecover'')])
      else (case fn c of
              Inr v \<Rightarrow> (Ran v, [])
            | Inl (PanicError e) \<Rightarrow>
                (Recovered e,
                 [(ErrorLog, (entry ''recovered from panic in goroutine'' ''utils'' ''GoRecover'')
                               \<lparr>Error := Some e\<rparr>)])
            | Inl (PanicOther x) \<Rightarrow> (Crashed, [])))"

section \<open>Package application: the lifecycle orchestrator\<close>

text \<open>
  A node of the singly linked list of shutdown hooks. The list itself (\<open>linkedList.node\<close>
  followed through \<open>next\<close>) is a HOL list from the head on: nodes are allocated by
  \<open>RegisterShutdown\<close> only and never shared. A hook acts on the rest of the process,
  the world \<open>'w\<close>.
\<close>

record 'w shutdown =
  priority :: int
  name :: string
  shutdownFunc :: "'w \<Rightarrow> 'w"

record 'w LeaderSupervisor =
  SupervisorName :: string
  ctx_done :: bool
  Working :: bool
  Start :: "'w \<Rightarrow> 'w"
  Stop :: "'w \<Rightarrow> 'w"

record 'w App =
  shutdown :: "'w shutdown list"
  leaderSupervisors :: "'w LeaderSupervisor list"

text \<open>The process as the orchestrator sees it: itself, the world its hooks act on, the log.\<close>

record 'w process =
  app :: "'w App"
  world :: 'w
  logged :: log

definition NewApp :: "'w \<Rightarrow> 'w process" where
  "NewApp w = \<lparr>app = \<lparr>shutdown = [], leaderSupervisors = []\<rparr>, world = w, logged = []\<rparr>"

text \<open>
  The loop of \<open>RegisterShutdown\<close>: the argument list is \<open>current.next\<close>; \<open>current\<close> moves on
  while the next node's priority is at most the new one.
\<close>

fun walk :: "'w shutdown \<Rightarrow> 'w shutdown list \<Rightarrow> 'w shutdown list" where
  "walk n [] = [n]"
| "walk n (c # rest) =
     (if shutdown.priority c \<le> shutdown.priority n then c # walk n rest else n # c # rest)"

definition link :: "'w shutdown \<Rightarrow> 'w shutdown list \<Rightarrow> 'w shutdown list" where
  "link n nodes =
     (case nodes of
        [] \<Rightarrow> [n]
      | h # t \<Rightarrow> if shutdown.priority h > shutdown.priority n then n # h # t else h # walk n t)"

definition RegisterShutdown :: "string \<Rightarrow> ('w \<Rightarrow> 'w) \<Rightarrow> int \<Rightarrow> 'w process \<Rightarrow> 'w process" where
  "RegisterShutdown nm fn prio p =
     (let newShutdown = \<lparr>priority = prio, name = nm, shutdownFunc = fn\<rparr>
      in p\<lparr>app := (app p)\<lparr>shutdown := link newShutdown (shutdown (app p))\<rparr>,
           logged := logged p @
             [(InfoLog, entry (''Registered shutdown func '' @ nm @ '' with priority '' @ fmt_d prio)
                          ''application'' ''RegisterShutdown'')]\<rparr>)"

text \<open>The line logged after a hook has run.\<close>

definition executed :: "'w shutdown \<Rightarrow> level \<times> LogEntry" where
  "executed h =
     (InfoLog, entry (''Shutdown func '' @ shutdown.name h @ '' executed with priority ''
                        @ fmt_d (shutdown.priority h))
                ''application'' ''shutdownAllAndDeleteAllCanceled'')"

text \<open>The loop of \<open>shutdownAllAndDeleteAllCanceled\<close>: run the head's hook, log it, unlink it.\<close>

fun drain :: "'w shutdown list \<Rightarrow> 'w \<Rightarrow> log \<Rightarrow> 'w shutdown list \<times> 'w \<times> log" where
  "drain [] w l = ([], w, l)"
| "drain (h # t) w l = drain t (shutdownFunc h w) (l @ [executed h])"

definition shutdownAllAndDeleteAllCanceled :: "'w process \<Rightarrow> 'w process" where
  "shutdownAllAndDeleteAllCanceled p =
     (case drain (shutdown (app p)) (world p) (logged p) of
        (nodes, w, l) \<Rightarrow> p\<lparr>app := (app p)\<lparr>shutdown := nodes\<rparr>, world := w, logged := l\<rparr>)"

text \<open>The first loop of \<open>App.Stop\<close>, over the registered supervisors.\<close>

fun stop_supervisors ::
  "'w LeaderSupervisor list \<Rightarrow> 'w \<Rightarrow> log \<Rightarrow> 'w LeaderSupervisor list \<times> 'w \<times> log" where
  "stop_supervisors [] w l = ([], w, l)"
| "stop_supervisors (sv # rest) w l =
     (case stop_supervisors rest (if Working sv then Stop sv w else w)
             (l @ [(InfoLog, entry (''Supervisor '' @ SupervisorName sv @ '' has been stopped'')
                              ''application'' ''Stop'')]) of
        (rest', w', l') \<Rightarrow> (sv\<lparr>ctx_done := True, Working := False\<rparr> # rest', w', l'))"

definition App_Stop :: "'w process \<Rightarrow> 'w process" where
  "App_Stop p =
     (case stop_supervisors (leaderSupervisors (app p)) (world p) (logged p) of
        (svs, w, l) \<Rightarrow>
          shutdownAllAndDeleteAllCanceled
            (p\<lparr>app := (app p)\<lparr>leaderSupervisors := svs\<rparr>, world := w,
               logged := l @ [(InfoLog, entry ''Stopping application'' ''application'' ''Stop'')]\<rparr>))"

text \<open>A sequence of \<open>RegisterShutdown\<close> calls, in call order.\<close>

fun register_all :: "(string \<times> ('w \<Rightarrow> 'w) \<times> int) list \<Rightarrow> 'w process \<Rightarrow> 'w process" where
  "register_all [] p = p"
| "register_all ((nm, fn, prio) # regs) p = register_all regs (RegisterShutdown nm fn prio p)"

definition hook_of :: "string \<times> ('w \<Rightarrow> 'w) \<times> int \<Rightarrow> 'w shutdown" where
  "hook_of c = (case c of (nm, fn, prio) \<Rightarrow> \<lparr>priority = prio, name = nm, shutdownFunc = fn\<rparr>)"

text \<open>An execution-order log: the hook called \<open>nm\<close> appends its name to the world.\<close>

definition logs_name :: "string \<Rightarrow> string list \<Rightarrow> string list" where
  "logs_name nm w = w @ [nm]"

section \<open>Package locker: the Redis lock\<close>

text \<open>
  The store as the three scripts see it: a key holds a string value with a time to live in
  milliseconds. \<open>GET\<close>, \<open>DEL\<close>, \<open>PEXPIRE\<close> and \<open>SET ... NX PX\<close> are Redis' own commands, given
  here by their documented replies: \<open>GET\<close> of a missing key is nil, \<open>DEL\<close> and \<open>PEXPIRE\<close>
  reply with 1 when the key exists and 0 otherwise, \<open>PEXPIRE\<close> with a time that is not
  positive deletes the key, and \<open>SET\<close> refuses an expire time that is not positive.
\<close>

type_synonym redis = "string \<rightharpoonup> string \<times> int"

definition GET :: "redis \<Rightarrow> string \<Rightarrow> string option" where
  "GET db k = map_option fst (db k)"

definition DEL :: "redis \<Rightarrow> string \<Rightarrow> int \<times> redis" where
  "DEL db k = (if db k = None then (0, db) else (1, db(k := None)))"

definition PEXPIRE :: "redis \<Rightarrow> string \<Rightarrow> int \<Rightarrow> int \<times> redis" where
  "PEXPIRE db k ms =
     (case db k of
        None \<Rightarrow> (0, db)
      | Some (v, ttl) \<Rightarrow> if ms \<le> 0 then (1, db(k := None)) else (1, db(k \<mapsto> (v, ms))))"

definition SET_NX_PX :: "redis \<Rightarrow> string \<Rightarrow> string \<Rightarrow> int \<Rightarrow> (bool \<times> redis) option" where
  "SET_NX_PX db k v ms =
     (if ms \<le> 0 then None
      else if db k = None then Some (True, db(k \<mapsto> (v, ms)))
      else Some (False, db))"

definition lockKeyPrefix :: string where
  "lockKeyPrefix = ''github.com/PavelAgarkov/service-pkg-block-prefix-''"

text \<open>
  The Lua scripts, with \<open>KEYS[1]\<close>, \<open>ARGV[1]\<close> and \<open>ARGV[2]\<close> as arguments. A script whose
  \<open>redis.call\<close> raises an error has no integer reply (\<open>None\<close>).
\<close>

definition lockScript :: "string \<Rightarrow> string \<Rightarrow> int \<Rightarrow> redis \<Rightarrow> int option \<times> redis" where
  "lockScript key1 argv1 argv2 db =
     (case SET_NX_PX db key1 argv1 argv2 of
        None \<Rightarrow> (None, db)
      | Some (ok, db') \<Rightarrow> (Some (if ok then 1 else 0), db'))"

definition unlockScript :: "string \<Rightarrow> string \<Rightarrow> redis \<Rightarrow> int option \<times> redis" where
  "unlockScript key1 argv1 db =
     (if GET db key1 = Some argv1 then (case DEL db key1 of (r, db') \<Rightarrow> (Some r, db'))
      else (Some 0, db))"

definition extendTTLScript :: "string \<Rightarrow> string \<Rightarrow> int \<Rightarrow> redis \<Rightarrow> int option \<times> redis" where
  "extendTTLScript key1 argv1 argv2 db =
     (if GET db key1 = Some argv1 then (case PEXPIRE db key1 argv2 of (r, db') \<Rightarrow> (Some r, db'))
      else (Some 0, db))"

text \<open>
  \<open>redisClient.Eval(...).Int()\<close>: the script runs on the server and its reply comes back,
  or the call fails, before the script ran (\<open>Unreachable\<close>) or after it (\<open>ReplyLost\<close>); a
  script error is a failed call as well. The string is the client's error text.
\<close>

datatype transport = Delivered | Unreachable string | ReplyLost string

definition Eval ::
  "transport \<Rightarrow> (redis \<Rightarrow> int option \<times> redis) \<Rightarrow> redis \<Rightarrow> (go_error + int) \<times> redis" where
  "Eval t script db =
     (case t of
        Unreachable why \<Rightarrow> (Inl (JobError why), db)
      | ReplyLost why \<Rightarrow> (Inl (JobError why), snd (script db))
      | Delivered \<Rightarrow>
          (case script db of
             (None, db') \<Rightarrow> (Inl (JobError ''ERR Error running script''), db')
           | (Some r, db') \<Rightarrow> (Inr r, db')))"

text \<open>\<open>Duration.Milliseconds\<close>: nanoseconds divided by a million, rounded towards zero.\<close>

definition Milliseconds :: "int \<Rightarrow> int" where
  "Milliseconds d = (if d < 0 then - ((- d) div 1000000) else d div 1000000)"

definition reply :: "(go_error + int) \<Rightarrow> bool \<times> go_error option" where
  "reply r =
     (case r of
        Inl err \<Rightarrow> (False, Some (Errorf (''eval: '' @ error_text err)))
      | Inr result \<Rightarrow> (result = 1, None))"

definition Lock ::
  "transport \<Rightarrow> string \<Rightarrow> string \<Rightarrow> int \<Rightarrow> redis \<Rightarrow> (bool \<times> go_error option) \<times> redis" where
  "Lock t key val expiration db =
     (case Eval t (lockScript (lockKeyPrefix @ key) val (Milliseconds expiration)) db of
        (r, db') \<Rightarrow> (reply r, db'))"

definition Unlock ::
  "transport \<Rightarrow> string \<Rightarrow> string \<Rightarrow> redis \<Rightarrow> (bool \<times> go_error option) \<times> redis" where
  "Unlock t key val db =
     (case Eval t (unlockScript (lockKeyPrefix @ key) val) db of
        (r, db') \<Rightarrow> (reply r, db'))"

definition ExtendLockTTL ::
  "transport \<Rightarrow> string \<Rightarrow> string \<Rightarrow> int \<Rightarrow> redis \<Rightarrow> (bool \<times> go_error option) \<times> redis" where
  "ExtendLockTTL t key val expiration db =
     (case Eval t (extendTTLScript (lockKeyPrefix @ key) val (Milliseconds expiration)) db of
        (r, db') \<Rightarrow> (reply r, db'))"

text \<open>A store in which the election \<open>cron\<close> is held.\<close>

definition held :: redis where
  "held = [lockKeyPrefix @ ''cron'' \<mapsto> (''holder'', 30000)]"

section \<open>Package scheduler: the job scheduler\<close>

text \<open>
  A job function is called with a context and returns an error or nil, or panics. A nil
  \<open>Func\<close> is the function that panics with the runtime's nil dereference error.
\<close>

datatype outcome = Returns "go_error option" | Panics panic_value

definition StopImmediate :: int where
  "StopImmediate = 0"

definition StopGraceful :: int where
  "StopGraceful = 1"

record JobConfiguration =
  Name :: string
  Func :: "context \<Rightarrow> outcome"
  Tick :: int
  Deadline :: int
  StopMode :: int

text \<open>
  A \<open>job\<close>; \<open>ctx\<close> is nil (\<open>None\<close>) and \<open>ticker\<close> is nil (\<open>False\<close>) until \<open>Start\<close> sets them,
  \<open>cancel\<close> is the identity of the context that \<open>j.cancel()\<close> ends.
\<close>

record job =
  name :: string
  ctx :: "context option"
  cancel :: "nat option"
  fn :: "context \<Rightarrow> outcome"
  tick :: int
  ticker :: bool
  deadline :: int
  stopMode :: int

text \<open>
  The scheduler; \<open>rate\<close> is a channel of capacity \<open>rate_cap\<close> that holds \<open>rate_len\<close>
  elements. The map is the one \<open>NewJobScheduler\<close> allocates.
\<close>

record JobScheduler =
  started :: bool
  goroutines :: "string \<rightharpoonup> job"
  rate_cap :: nat
  rate_len :: nat

definition NewJobScheduler :: "int \<Rightarrow> JobScheduler" where
  "NewJobScheduler rate =
     \<lparr>started = False, goroutines = Map.empty,
      rate_cap = nat (if rate \<le> 0 then 1 else rate), rate_len = 0\<rparr>"

definition new_job :: "JobConfiguration \<Rightarrow> job" where
  "new_job cfg =
     \<lparr>name = Name cfg, ctx = None, cancel = None, fn = Func cfg, tick = Tick cfg,
      ticker = False, deadline = Deadline cfg, stopMode = StopMode cfg\<rparr>"

definition JobScheduler_Add :: "JobConfiguration \<Rightarrow> JobScheduler \<Rightarrow> go_error option \<times> JobScheduler" where
  "JobScheduler_Add cfg s =
     (if started s
      then (Some (Errorf (''scheduler.Add('' @ Name cfg @ ''): already started'')), s)
      else if goroutines s (Name cfg) \<noteq> None
      then (Some (Errorf (''scheduler.Add('' @ Name cfg @ ''): job already exists'')), s)
      else (None, s\<lparr>goroutines := (goroutines s)(Name cfg \<mapsto> new_job cfg)\<rparr>))"

text \<open>
  The \<open>switch\<close> of \<open>exec\<close>: the context the job function is called with, \<open>i\<close> being the
  identity of the new context. A stop mode that is neither constant matches no case, and
  the function is not called.
\<close>

definition exec_ctx :: "job \<Rightarrow> context \<Rightarrow> nat \<Rightarrow> context option" where
  "exec_ctx j c i =
     (if job.stopMode j = StopImmediate then Some (WithTimeout c i (job.deadline j))
      else if job.stopMode j = StopGraceful then Some (WithTimeout Background i (job.deadline j))
      else None)"

text \<open>
  What a call does: it waits (no case of a \<open>select\<close> is ready), it panics, or it returns.
\<close>

datatype 'a call = Blocks | Panicked panic_value | Finished 'a

text \<open>Which ready case a \<open>select\<close> takes: the \<open>ctx.Done()\<close> one or the channel operation.\<close>

datatype select_case = CaseDone | CaseChan

definition nil_dereference :: panic_value where
  "nil_dereference =
     PanicError (JobError ''runtime error: invalid memory address or nil pointer dereference'')"

text \<open>
  The deferred function of \<open>exec\<close> that recovers a panic of the job function: the panic is
  logged with an error that names the job, and the error \<open>exec\<close> returns is set to another
  one, made from the panic value alone.
\<close>

definition recovered :: "job \<Rightarrow> outcome \<Rightarrow> go_error option \<times> log" where
  "recovered j out =
     (case out of
        Returns e \<Rightarrow> (e, [])
      | Panics r \<Rightarrow>
          (Some (Errorf (''panic in job: '' @ fmt_v r)),
           [(ErrorLog,
             \<lparr>Msg = ''Job panic'', Component = ''scheduler'', Method = ''exec'',
              Args = job.name j,
              Error = Some (Errorf (''panic in job '' @ job.name j @ '': '' @ fmt_v r))\<rparr>)]))"

text \<open>
  \<open>exec\<close>, at the events \<open>h\<close>. The first \<open>select\<close> takes \<open>sel\<close>: the job's context is ended,
  or a slot of \<open>rate\<close> is taken; the slot is given back by a deferred call, whatever
  happens. The job function is not called when the job's context is ended.
\<close>

definition exec ::
  "ctx_event list \<Rightarrow> select_case \<Rightarrow> nat \<Rightarrow> JobScheduler \<Rightarrow> job \<Rightarrow>
     (go_error option \<times> log \<times> JobScheduler) call" where
  "exec h sel i s j =
     (case job.ctx j of
        None \<Rightarrow> Panicked nil_dereference
      | Some c \<Rightarrow>
          (case sel of
             CaseDone \<Rightarrow> if Done h c then Finished (Err h c, [], s) else Blocks
           | CaseChan \<Rightarrow>
               if rate_len s < rate_cap s
               then (let s1 = s\<lparr>rate_len := rate_len s + 1\<rparr>;
                         (err, l) =
                           (if Err h c \<noteq> None then (Err h c, [])
                            else (case exec_ctx j c i of
                                    None \<Rightarrow> (None, [])
                                  | Some c' \<Rightarrow> recovered j (job.fn j c')))
                     in Finished (err, l, s1\<lparr>rate_len := rate_len s1 - 1\<rparr>))
               else Blocks))"

text \<open>The error a finished call of \<open>exec\<close> returned.\<close>

definition returned_error :: "(go_error option \<times> log \<times> JobScheduler) call \<Rightarrow> go_error option" where
  "returned_error r = (case r of Finished (err, l, s) \<Rightarrow> err | _ \<Rightarrow> None)"

text \<open>An error value carries a text when its message contains it.\<close>

definition carries :: "go_error option \<Rightarrow> string \<Rightarrow> bool" where
  "carries err txt = (case err of None \<Rightarrow> False | Some e \<Rightarrow> sublist txt (error_text e))"

text \<open>
  One pass of the loop of \<open>run\<close>: its \<open>select\<close> sees the job's context ended, or a tick,
  at the events \<open>h\<close>; for a tick, the case the \<open>select\<close> of \<open>exec\<close> takes and the identity
  of the context \<open>exec\<close> creates.
\<close>

datatype pass = SeesDone "ctx_event list" | SeesTick "ctx_event list" select_case nat

datatype loop_state = Ticking | Returned | Waiting | Down panic_value

text \<open>\<open>errors.Is(err, context.Canceled)\<close>.\<close>

definition is_Canceled :: "go_error \<Rightarrow> bool" where
  "is_Canceled e = (e = Canceled)"

definition report :: "string \<Rightarrow> go_error option \<Rightarrow> log" where
  "report nm err =
     (case err of
        None \<Rightarrow> []
      | Some e \<Rightarrow>
          if is_Canceled e then []
          else [(ErrorLog, \<lparr>Msg = ''Job execution failed'', Component = ''scheduler'',
                            Method = ''run'', Args = nm, Error = Some e\<rparr>)])"

text \<open>
  \<open>run\<close> over the passes its loop makes. With no pass left the goroutine is in its
  \<open>select\<close>, still ticking.
\<close>

fun run :: "JobScheduler \<Rightarrow> string \<Rightarrow> job \<Rightarrow> pass list \<Rightarrow> log \<Rightarrow> loop_state \<times> JobScheduler \<times> log" where
  "run s nm j [] l = (Ticking, s, l)"
| "run s nm j (SeesDone h # rest) l =
     (case job.ctx j of
        None \<Rightarrow> (Down nil_dereference, s, l)
      | Some c \<Rightarrow>
          if Done h c
          then (Returned, s, l @ [(InfoLog, (entry ''Job stopped'' ''scheduler'' ''run'')\<lparr>Args := nm\<rparr>)])
          else (Waiting, s, l))"
| "run s nm j (SeesTick h sel i # rest) l =
     (case exec h sel i s j of
        Blocks \<Rightarrow> (Waiting, s, l)
      | Panicked r \<Rightarrow> (Down r, s, l)
      | Finished (err, l', s') \<Rightarrow> run s' nm j rest (l @ l' @ report nm err))"

text \<open>
  \<open>Start(ctx)()\<close>. \<open>names\<close> is the order in which \<open>range\<close> visits the map, \<open>i\<close> the identity of
  the first context created, \<open>h\<close> the events when the goroutines reach the \<open>select\<close> of
  \<open>GoRecover\<close>. Each job gets its context, its ticker, and a goroutine for \<open>run\<close>.
\<close>

fun start_jobs ::
  "ctx_event list \<Rightarrow> context \<Rightarrow> string list \<Rightarrow> nat \<Rightarrow> (string \<rightharpoonup> job) \<Rightarrow>
     (string \<rightharpoonup> job) \<times> (string \<times> job) goroutine list \<times> log" where
  "start_jobs h c [] i jobs = (jobs, [], [])"
| "start_jobs h c (nm # names) i jobs =
     (case jobs nm of
        None \<Rightarrow> start_jobs h c names i jobs
      | Some j \<Rightarrow>
          (let j' = j\<lparr>ctx := Some (WithCancel c i), cancel := Some i, ticker := True\<rparr>;
               (g, l) = GoRecover h c (\<lambda>_. Inr (nm, j'))
           in case start_jobs h c names (Suc i) (jobs(nm \<mapsto> j')) of
                (jobs', gs, l') \<Rightarrow> (jobs', g # gs, l @ l')))"

definition JobScheduler_Start ::
  "ctx_event list \<Rightarrow> context \<Rightarrow> string list \<Rightarrow> nat \<Rightarrow> JobScheduler \<Rightarrow>
     JobScheduler \<times> (string \<times> job) goroutine list \<times> log" where
  "JobScheduler_Start h c names i s =
     (if started s
      then (s, [], [(WarnLog, entry ''scheduler.start'' ''scheduler'' ''Start'')])
      else (case start_jobs h c names i (goroutines s) of
              (jobs, gs, l) \<Rightarrow> (s\<lparr>started := True, goroutines := jobs\<rparr>, gs, l)))"

text \<open>Sample jobs: a job function that does the same whatever its context.\<close>

definition always :: "outcome \<Rightarrow> context \<Rightarrow> outcome" where
  "always out c = out"

definition heartbeat :: JobConfiguration where
  "heartbeat =
     \<lparr>Name = ''heartbeat'', Func = always (Returns None), Tick = 5000000000,
      Deadline = 2000000000, StopMode = StopImmediate\<rparr>"

definition flaky :: JobConfiguration where
  "flaky =
     \<lparr>Name = ''A'', Func = always (Panics (PanicOther ''boom'')), Tick = 5000000,
      Deadline = 2000000000, StopMode = StopGraceful\<rparr>"

text \<open>A job as \<open>Start\<close> leaves it, under a context derived from the background.\<close>

definition started_job :: "JobConfiguration \<Rightarrow> job" where
  "started_job conf =
     (new_job conf)\<lparr>ctx := Some (WithCancel (WithCancel Background 0) 1), cancel := Some 1,
                     ticker := True\<rparr>"

section \<open>Package watchdog: leader election\<close>

definition LostAcquire :: int where
  "LostAcquire = 1"

definition TakenAcquire :: int where
  "TakenAcquire = 2"

definition DefaultLeaderExpiration :: int where
  "DefaultLeaderExpiration = 30 * 1000000000"

record Config =
  ElectionName :: string
  Expiration :: int

text \<open>
  The watchdog knows its locker as the interface \<open>locker.Locker\<close> only: what a call returns
  is for the environment to say. A call is recorded with the context, key and value it
  was made with.
\<close>

datatype locker_call =
    LockCalled "context" string string int
  | UnlockCalled "context" string string
  | ExtendLockTTLCalled "context" string string int

text \<open>
  Where the goroutine of \<open>Elect\<close> stands: at the \<open>select\<close> of \<open>GoRecover\<close>, in the first
  \<open>Lock\<close>, in \<open>send(event)\<close> (with the place it goes on to), at the \<open>select\<close> of the loop,
  in the \<open>Lock\<close> or the \<open>ExtendLockTTL\<close> of a tick, at the \<open>return\<close> with its deferred
  calls still to run, or gone: returned (\<open>Exited\<close>), never run because the context was
  cancelled before the start (\<open>NeverRan\<close>), or \<open>Died\<close> of a panic.
\<close>

datatype place =
    AtGoRecover | AtFirstLock | AtSend int place | AtLoop | AtLock | AtExtend | AtReturn
  | Exited | NeverRan | Died

text \<open>
  One election: the configuration after defaulting, the value \<open>uuid.NewString()\<close> gives,
  the watchdog's context \<open>rwl.ctx\<close> and the events so far, the goroutine's place and its
  \<open>isLeader\<close>, the buffered channel \<open>watcher\<close> (capacity 8) and whether it is closed.
  \<open>sent\<close> lists every event \<open>send\<close> was called with, \<open>delivered\<close> every event put on the
  channel and \<open>calls\<close> every call made to the locker, each in order.
\<close>

record election =
  cfg :: Config
  val :: string
  wctx :: "context"
  hist :: "ctx_event list"
  at :: place
  isLeader :: bool
  watcher :: "int list"
  closed :: bool
  sent :: "int list"
  delivered :: "int list"
  calls :: "locker_call list"

text \<open>\<open>Elect\<close> up to the launch of its goroutine; an empty election name panics.\<close>

definition Elect :: "context \<Rightarrow> ctx_event list \<Rightarrow> string \<Rightarrow> Config \<Rightarrow> panic_value + election" where
  "Elect c h uuid conf =
     (if ElectionName conf = [] then Inl (PanicOther ''ElectionName is empty'')
      else Inr \<lparr>cfg = (if Expiration conf \<le> 0 then conf\<lparr>Expiration := DefaultLeaderExpiration\<rparr>
                       else conf),
                val = uuid, wctx = c, hist = h, at = AtGoRecover, isLeader = False,
                watcher = [], closed = False, sent = [], delivered = [], calls = []\<rparr>)"

text \<open>
  What can happen next. The environment: an event on some context (\<open>rwl.Stop()\<close> is
  \<open>CancelCalled\<close> of the watchdog's context), the consumer receiving from the channel, the
  locker returning from a call. The goroutine: it starts, a \<open>select\<close> takes one of its
  ready cases, it leaves through its deferred calls.
\<close>

datatype action =
    Happens ctx_event
  | Receives
  | Starts
  | LockReturns bool
  | ExtendReturns bool
  | TakesDone
  | TakesSend
  | TakesTick
  | Leaves

text \<open>
  One step; \<open>None\<close> when the action is not possible in the state. A \<open>select\<close> takes
  \<open>ctx.Done()\<close> only when the context is ended and the send only when the buffer has room;
  when both are ready either may be taken. \<open>rand.Int63n\<close> panics when its argument,
  a tenth of the expiration, is not positive; the deferred \<open>close(watcher)\<close> runs then too.
\<close>

definition step :: "action \<Rightarrow> election \<Rightarrow> election option" where
  "step a s =
     (case a of
        Happens e \<Rightarrow> Some (s\<lparr>hist := hist s @ [e]\<rparr>)
      | Receives \<Rightarrow>
          (case watcher s of [] \<Rightarrow> None | x # xs \<Rightarrow> Some (s\<lparr>watcher := xs\<rparr>))
      | Starts \<Rightarrow>
          if at s \<noteq> AtGoRecover then None
          else if Done (hist s) (wctx s) then Some (s\<lparr>at := NeverRan\<rparr>)
          else if Expiration (cfg s) div 10 \<le> 0 then Some (s\<lparr>at := Died, closed := True\<rparr>)
          else Some (s\<lparr>at := AtFirstLock\<rparr>)
      | LockReturns ok \<Rightarrow>
          if at s = AtFirstLock \<or> at s = AtLock
          then Some (s\<lparr>calls := calls s @
                          [LockCalled (wctx s) (ElectionName (cfg s)) (val s) (Expiration (cfg s))],
                       isLeader := (if ok then True else isLeader s),
                       sent := (if ok then sent s @ [TakenAcquire] else sent s),
                       at := (if ok then AtSend TakenAcquire AtLoop else AtLoop)\<rparr>)
          else None
      | ExtendReturns ok \<Rightarrow>
          if at s = AtExtend
          then Some (s\<lparr>calls := calls s @
                          [ExtendLockTTLCalled (wctx s) (ElectionName (cfg s)) (val s)
                             (Expiration (cfg s))],
                       isLeader := (if ok then isLeader s else False),
                       sent := (if ok then sent s else sent s @ [LostAcquire]),
                       at := (if ok then AtLoop else AtSend LostAcquire AtLoop)\<rparr>)
          else None
      | TakesDone \<Rightarrow>
          (case at s of
             AtSend ev k \<Rightarrow> if Done (hist s) (wctx s) then Some (s\<lparr>at := k\<rparr>) else None
           | AtLoop \<Rightarrow>
               if \<not> Done (hist s) (wctx s) then None
               else if isLeader s
               then Some (s\<lparr>calls := calls s @
                               [UnlockCalled Background (ElectionName (cfg s)) (val s)],
                            isLeader := False,
                            sent := sent s @ [LostAcquire],
                            at := AtSend LostAcquire AtReturn\<rparr>)
               else Some s
           | _ \<Rightarrow> None)
      | TakesSend \<Rightarrow>
          (case at s of
             AtSend ev k \<Rightarrow>
               if length (watcher s) < 8
               then Some (s\<lparr>watcher := watcher s @ [ev], delivered := delivered s @ [ev], at := k\<rparr>)
               else None
           | _ \<Rightarrow> None)
      | TakesTick \<Rightarrow>
          if at s = AtLoop then Some (s\<lparr>at := (if isLeader s then AtExtend else AtLock)\<rparr>)
          else None
      | Leaves \<Rightarrow>
          if at s = AtReturn then Some (s\<lparr>closed := True, at := Exited\<rparr>) else None)"

fun steps :: "action list \<Rightarrow> election \<Rightarrow> election option" where
  "steps [] s = Some s"
| "steps (a # as) s = (case step a s of None \<Rightarrow> None | Some s' \<Rightarrow> steps as s')"

definition election_after :: "action list \<Rightarrow> panic_value + election \<Rightarrow> election option" where
  "election_after as r = (case r of Inl p \<Rightarrow> None | Inr s \<Rightarrow> steps as s)"

text \<open>
  A sequence of events that alternates strictly, beginning with \<open>e\<close>: \<open>TakenAcquire\<close>,
  \<open>LostAcquire\<close>, \<open>TakenAcquire\<close> and so on, when \<open>e\<close> is \<open>TakenAcquire\<close>.
\<close>

definition other :: "int \<Rightarrow> int" where
  "other e = (if e = TakenAcquire then LostAcquire else TakenAcquire)"

fun alternates :: "int \<Rightarrow> int list \<Rightarrow> bool" where
  "alternates e [] = True"
| "alternates e (x # xs) = (x = e \<and> alternates (other e) xs)"

text \<open>Whether the watchdog's context is cancelled.\<close>

definition cancelled :: "election \<Rightarrow> bool" where
  "cancelled s = Done (hist s) (wctx s)"

text \<open>
  A sample election: the watchdog's context is derived from the background with the
  identity 0, so that \<open>rwl.Stop()\<close> is \<open>CancelCalled 0\<close>; the expiration is left to its
  default.
\<close>

definition cron_election :: "panic_value + election" where
  "cron_election =
     Elect (WithCancel Background 0) [] ''6f1c''
       \<lparr>ElectionName = ''watchdog_cron'', Expiration = 0\<rparr>"

text \<open>The goroutine starts, takes the lock at once and delivers \<open>TakenAcquire\<close>.\<close>

definition leading :: "action list" where
  "leading = [Starts, LockReturns True, TakesSend]"

text \<open>
  Then the watchdog is stopped; the loop sees it and unlocks; \<open>send\<close> takes \<open>ctx.Done()\<close>
  although the buffer has room; the goroutine leaves.
\<close>

definition final_dropped :: "action list" where
  "final_dropped = leading @ [Happens (CancelCalled 0), TakesDone, TakesDone, Leaves]"

text \<open>The same, but \<open>send\<close> takes the channel.\<close>

definition final_delivered :: "action list" where
  "final_delivered = leading @ [Happens (CancelCalled 0), TakesDone, TakesSend, Leaves]"

text \<open>Leadership is lost at a tick, the watchdog still running.\<close>

definition lost_once :: "action list" where
  "lost_once = leading @ [TakesTick, ExtendReturns False, TakesSend]"

text \<open>
  Leadership is lost at a tick and taken again at the next; the watchdog is stopped
  between the return of that \<open>Lock\<close> and the \<open>select\<close> of \<open>send\<close>, which takes \<open>ctx.Done()\<close>;
  the loop then unlocks, and this time \<open>send\<close> takes the channel.
\<close>

definition lost_twice :: "action list" where
  "lost_twice =
     leading @
     [TakesTick, ExtendReturns False, TakesSend, TakesTick, LockReturns True,
      Happens (CancelCalled 0), TakesDone, TakesDone, TakesSend]"

text \<open>
  A consumer that does not receive: leadership is lost and taken again at the ticks until
  the eight places of the buffer are taken; at the next tick the lock is taken once more,
  and \<open>send\<close> waits for room.
\<close>

definition lose :: "action list" where
  "lose = [TakesTick, ExtendReturns False, TakesSend]"

definition retake :: "action list" where
  "retake = [TakesTick, LockReturns True, TakesSend]"

definition full_buffer :: "action list" where
  "full_buffer = leading @ lose @ retake @ lose @ retake @ lose @ retake @ lose"

definition waiting_leader :: "action list" where
  "waiting_leader = full_buffer @ [TakesTick, LockReturns True]"

text \<open>
  Then the watchdog is stopped: \<open>send\<close> returns through \<open>ctx.Done()\<close>, and the loop sees the
  cancellation with \<open>isLeader\<close> set.
\<close>

definition stopped_leader :: "action list" where
  "stopped_leader = waiting_leader @ [Happens (CancelCalled 0), TakesDone]"

text \<open>
  The states the goroutine goes through once its loop has seen the cancellation as leader
  and has come to the state \<open>s1\<close>, in the final \<open>send\<close>.
\<close>

definition closing :: "election \<Rightarrow> election \<Rightarrow> bool" where
  "closing s1 s2 =
     (Done (hist s2) (wctx s2) \<and> calls s2 = calls s1 \<and> sent s2 = sent s1 \<and>
      (at s2 = AtSend LostAcquire AtReturn \<and> \<not> closed s2 \<and> delivered s2 = delivered s1 \<or>
       (at s2 = AtReturn \<and> \<not> closed s2 \<or> at s2 = Exited \<and> closed s2) \<and>
       (delivered s2 = delivered s1 \<or> delivered s2 = delivered s1 @ [LostAcquire])))"

text \<open>The event whose \<open>send\<close> is in progress, if any.\<close>

definition pending :: "election \<Rightarrow> int list" where
  "pending s = (case at s of AtSend ev k \<Rightarrow> [ev] | _ \<Rightarrow> [])"

text \<open>The goroutine has taken the lock and is in \<open>send(TakenAcquire)\<close>.\<close>

definition taking :: "action list" where
  "taking = [Starts, LockReturns True]"

text \<open>
  The election leads; the loop takes a tick, and the watchdog is stopped before
  \<open>ExtendLockTTL\<close> returns, which it does with false, its context being cancelled;
  \<open>send(LostAcquire)\<close> returns through \<open>ctx.Done()\<close>, and the loop takes \<open>ctx.Done()\<close> with
  \<open>isLeader\<close> false.
\<close>

definition spinning :: "action list" where
  "spinning =
     leading @ [TakesTick, Happens (CancelCalled 0), ExtendReturns False, TakesDone, TakesDone]"

fun is_unlock :: "locker_call \<Rightarrow> bool" where
  "is_unlock (UnlockCalled c k v) = True"
| "is_unlock call = False"

text \<open>
  The goroutine after a cancellation that its loop has not seen as leader: the context is
  cancelled, \<open>isLeader\<close> is false, the channel is open, and the goroutine is at the \<open>select\<close>
  of its loop or in the \<open>Lock\<close> of a tick.
\<close>

definition adrift :: "election \<Rightarrow> bool" where
  "adrift s =
     (Done (hist s) (wctx s) \<and> \<not> isLeader s \<and> \<not> closed s \<and> (at s = AtLoop \<or> at s = AtLock))"

text \<open>
  What holds of an election at every moment: the events passed to \<open>send\<close> alternate and
  \<open>isLeader\<close> follows them, the delivered events are among them in order, and none is
  missing while the context is live.
\<close>

definition sound :: "election \<Rightarrow> bool" where
  "sound s =
     (alternates TakenAcquire (sent s) \<and> subseq (delivered s) (sent s) \<and>
      (case at s of
         AtGoRecover \<Rightarrow> \<not> closed s \<and> \<not> isLeader s \<and> sent s = []
       | AtFirstLock \<Rightarrow> \<not> closed s \<and> \<not> isLeader s \<and> sent s = []
       | AtSend ev k \<Rightarrow>
           \<not> closed s \<and> sent s \<noteq> [] \<and> last (sent s) = ev \<and>
           subseq (delivered s) (butlast (sent s)) \<and>
           (isLeader s \<longleftrightarrow> odd (length (sent s))) \<and>
           (\<not> Done (hist s) (wctx s) \<longrightarrow> delivered s = butlast (sent s)) \<and>
           (k = AtLoop \<or> k = AtReturn \<and> ev = LostAcquire \<and> Done (hist s) (wctx s))
       | AtLoop \<Rightarrow>
           \<not> closed s \<and> (isLeader s \<longleftrightarrow> odd (length (sent s))) \<and>
           (\<not> Done (hist s) (wctx s) \<longrightarrow> delivered s = sent s)
       | AtLock \<Rightarrow>
           \<not> closed s \<and> \<not> isLeader s \<and> even (length (sent s)) \<and>
           (\<not> Done (hist s) (wctx s) \<longrightarrow> delivered s = sent s)
       | AtExtend \<Rightarrow>
           \<not> closed s \<and> isLeader s \<and> odd (length (sent s)) \<and>
           (\<not> Done (hist s) (wctx s) \<longrightarrow> delivered s = sent s)
       | AtReturn \<Rightarrow> \<not> closed s \<and> Done (hist s) (wctx s)
       | Exited \<Rightarrow> closed s \<and> Done (hist s) (wctx s)
       | NeverRan \<Rightarrow> \<not> closed s \<and> sent s = []
       | Died \<Rightarrow> sent s = []))"

section \<open>Package readiness_barrier\<close>



text \<open>
  The methods of a barrier may be called from any goroutine, and none of \<open>Start\<close>, \<open>Stop\<close>
  and \<open>SendSignalCtx\<close> is atomic: each is a sequence of steps on the shared barrier, and
  the steps of different calls interleave. A call in progress is recorded by the place it
  has reached. In \<open>Start\<close>, after the \<open>CompareAndSwap\<close>: about to store the cancel function
  of its new context, then about to launch the listener. In \<open>Stop\<close>, after the
  \<open>CompareAndSwap\<close>: about to cancel, in \<open>wg.Wait\<close>, in the loop labelled \<open>drop\<close>, about to
  reset the flag.
\<close>

datatype start_place = ToStore | ToLaunch

datatype stop_place = ToCancel | ToWait | ToDrain | ToReset

text \<open>
  The barrier. \<open>signals\<close> is the buffered channel (capacity 4). Each \<open>Start\<close> that gets past
  its \<open>CompareAndSwap\<close> derives a context of its own from the parent, known by an identity;
  \<open>runCancel\<close> holds the identity of the context it would cancel (\<open>None\<close> is nil),
  \<open>run_cancelled\<close> the contexts cancelled so far, \<open>listeners\<close> the contexts of the goroutines
  of \<open>listen\<close> that are alive (the ones \<open>wg\<close> counts), \<open>fresh\<close> the next identity.
  \<open>starters\<close>, \<open>stoppers\<close> and \<open>senders\<close> are the calls in progress: of \<open>Start\<close>, of \<open>Stop\<close>,
  and of \<open>SendSignalCtx\<close> past the check of \<open>running\<close>, each sender with its signal.
  \<open>failed\<close> lists the errors \<open>SendSignalCtx\<close> has returned.
\<close>

record ReadinessBarrier =
  config_Name :: string
  signals :: "string list"
  readinessFlag :: bool
  running :: bool
  runCancel :: "nat option"
  run_cancelled :: "nat list"
  parent_done :: bool
  listeners :: "nat list"
  fresh :: nat
  starters :: "(start_place \<times> nat) list"
  stoppers :: "stop_place list"
  senders :: "string list"
  failed :: "go_error list"








text \<open>No call is in progress.\<close>

definition idle :: "ReadinessBarrier \<Rightarrow> bool" where
  "idle r = (starters r = [] \<and> stoppers r = [] \<and> senders r = [])"







section \<open>Contexts\<close>

lemma first_end_append:
  "first_end h c = Some x \<Longrightarrow> first_end (h @ h') c = Some x"
  by (induction h) (auto split: option.splits)

lemma Done_append: "Done h c \<Longrightarrow> Done (h @ h') c"
  by (auto simp: Done_def Err_def first_end_append split: option.splits)

lemma first_end_WithTimeout:
  "first_end h c = Some x \<Longrightarrow> first_end h (WithTimeout c i d) \<noteq> None"
  by (induction h) (auto split: option.splits)

lemma Done_WithTimeout: "Done h c \<Longrightarrow> Done h (WithTimeout c i d)"
  using first_end_WithTimeout [of h c _ i d]
  by (auto simp: Done_def Err_def split: option.splits)

lemma first_end_Background:
  "first_end h (WithTimeout Background i d) \<noteq> None \<longleftrightarrow> CancelCalled i \<in> set h \<or> TimerFired i \<in> set h"
  by (induction h) (auto split: option.splits)

lemma Done_graceful:
  "Done h (WithTimeout Background i d) \<longleftrightarrow> d \<le> 0 \<or> CancelCalled i \<in> set h \<or> TimerFired i \<in> set h"
  using first_end_Background [of h i d]
  by (auto simp: Done_def Err_def)

section \<open>The shutdown hook list\<close>

lemma link_walk: "link n xs = walk n xs"
  by (cases xs) (auto simp: link_def)

lemma set_walk: "set (walk n xs) = insert n (set xs)"
  by (induction xs) auto

lemma sorted_walk:
  "sorted (map shutdown.priority xs) \<Longrightarrow> sorted (map shutdown.priority (walk n xs))"
  by (induction xs) (auto simp: set_walk)

lemma filter_walk:
  "sorted (map shutdown.priority xs) \<Longrightarrow>
   filter (\<lambda>h. shutdown.priority h = k) (walk n xs) =
   filter (\<lambda>h. shutdown.priority h = k) xs @ (if shutdown.priority n = k then [n] else [])"
proof (induction xs)
  case Nil
  then show ?case by simp
next
  case (Cons a xs)
  show ?case
  proof (cases "shutdown.priority a \<le> shutdown.priority n")
    case True
    with Cons show ?thesis by simp
  next
    case False
    with Cons.prems have "\<forall>x \<in> set (a # xs). shutdown.priority n < shutdown.priority x"
      by auto
    then have "filter (\<lambda>h. shutdown.priority h = shutdown.priority n) (a # xs) = []"
      by (auto simp: filter_empty_conv)
    with False show ?thesis by auto
  qed
qed

lemma mset_walk: "mset (walk n xs) = add_mset n (mset xs)"
  by (induction xs) auto

lemma shutdown_RegisterShutdown:
  "shutdown (app (RegisterShutdown nm f prio p)) = walk (hook_of (nm, f, prio)) (shutdown (app p))"
  by (simp add: RegisterShutdown_def link_walk hook_of_def)

lemma world_RegisterShutdown: "world (RegisterShutdown nm f prio p) = world p"
  by (simp add: RegisterShutdown_def)

lemma supervisors_RegisterShutdown:
  "leaderSupervisors (app (RegisterShutdown nm f prio p)) = leaderSupervisors (app p)"
  by (simp add: RegisterShutdown_def)

lemma register_all_props:
  "sorted (map shutdown.priority (shutdown (app p))) \<Longrightarrow>
   sorted (map shutdown.priority (shutdown (app (register_all regs p)))) \<and>
   (\<forall>k. filter (\<lambda>h. shutdown.priority h = k) (shutdown (app (register_all regs p))) =
        filter (\<lambda>h. shutdown.priority h = k) (shutdown (app p)) @
        filter (\<lambda>h. shutdown.priority h = k) (map hook_of regs)) \<and>
   mset (shutdown (app (register_all regs p))) = mset (shutdown (app p)) + mset (map hook_of regs) \<and>
   world (register_all regs p) = world p \<and>
   leaderSupervisors (app (register_all regs p)) = leaderSupervisors (app p)"
proof (induction regs arbitrary: p)
  case Nil
  then show ?case by simp
next
  case (Cons c regs)
  obtain nm f prio where c: "c = (nm, f, prio)" by (cases c) auto
  let ?q = "RegisterShutdown nm f prio p"
  have s: "sorted (map shutdown.priority (shutdown (app ?q)))"
    using Cons.prems by (simp add: shutdown_RegisterShutdown sorted_walk)
  from Cons.IH [OF s] show ?case
    using Cons.prems
    by (simp add: c shutdown_RegisterShutdown filter_walk mset_walk world_RegisterShutdown
        supervisors_RegisterShutdown)
qed

lemma drain_eq: "drain xs w l = ([], fold shutdownFunc xs w, l @ map executed xs)"
  by (induction xs arbitrary: w l) auto

lemma shutdownAll_eq:
  "shutdownAllAndDeleteAllCanceled p =
   p\<lparr>app := (app p)\<lparr>shutdown := []\<rparr>, world := fold shutdownFunc (shutdown (app p)) (world p),
     logged := logged p @ map executed (shutdown (app p))\<rparr>"
  by (simp add: shutdownAllAndDeleteAllCanceled_def drain_eq)

lemma stop_supervisors_idle:
  "stop_supervisors svs w l = (svs', w', l') \<Longrightarrow> \<forall>sv \<in> set svs. \<not> Working sv \<Longrightarrow> w' = w"
  by (induction svs arbitrary: w l svs' w' l') (auto split: prod.splits)

lemma stop_supervisors_Working:
  "stop_supervisors svs w l = (svs', w', l') \<Longrightarrow> sv \<in> set svs' \<Longrightarrow> \<not> Working sv"
  by (induction svs arbitrary: w l svs' w' l') (auto split: prod.splits)

text \<open>
  Claim C2. Whatever sequence of \<open>RegisterShutdown\<close> calls is made on a new \<open>App\<close>, the hook
  list is in ascending priority order, the hooks of any one priority stand in the order of
  their registration (so the list is the stable sort of the calls by priority), and \<open>Stop\<close>
  runs the hooks from the head of that list to its end. Hooks registered with priorities
  50, 10, 200, 10 run in the order second, fourth, first, third.
\<close>

theorem RegisterShutdown_keeps_order_and_Stop_follows_it:
  "sorted (map shutdown.priority (shutdown (app (register_all regs (NewApp w))))) \<and>
   (\<forall>k. filter (\<lambda>h. shutdown.priority h = k) (shutdown (app (register_all regs (NewApp w)))) =
        filter (\<lambda>h. shutdown.priority h = k) (map hook_of regs)) \<and>
   shutdown (app (register_all regs (NewApp w))) = sort_key shutdown.priority (map hook_of regs) \<and>
   world (App_Stop (register_all regs (NewApp w))) =
     fold shutdownFunc (shutdown (app (register_all regs (NewApp w)))) w \<and>
   world (shutdownAllAndDeleteAllCanceled p) = fold shutdownFunc (shutdown (app p)) (world p) \<and>
   logged (shutdownAllAndDeleteAllCanceled p) = logged p @ map executed (shutdown (app p)) \<and>
   world (App_Stop (register_all
            [(''first'', logs_name ''first'', 50), (''second'', logs_name ''second'', 10),
             (''third'', logs_name ''third'', 200), (''fourth'', logs_name ''fourth'', 10)]
            (NewApp []))) = [''second'', ''fourth'', ''first'', ''third'']"
proof -
  let ?p = "register_all regs (NewApp w)"
  have s0: "sorted (map shutdown.priority (shutdown (app (NewApp w))))"
    by (simp add: NewApp_def)
  note props = register_all_props [OF s0, of regs]
  have a: "sorted (map shutdown.priority (shutdown (app ?p)))"
    using props by blast
  have b: "filter (\<lambda>h. shutdown.priority h = k) (shutdown (app ?p)) =
        filter (\<lambda>h. shutdown.priority h = k) (map hook_of regs)" for k
    using props by (simp add: NewApp_def)
  have m: "mset (shutdown (app ?p)) = mset (map hook_of regs)"
    using props by (simp add: NewApp_def)
  have c: "shutdown (app ?p) = sort_key shutdown.priority (map hook_of regs)"
  proof (rule sym, rule properties_for_sort_key [OF m _ a])
    fix k
    show "filter (\<lambda>x. shutdown.priority k = shutdown.priority x) (shutdown (app ?p)) =
          filter (\<lambda>x. shutdown.priority k = shutdown.priority x) (map hook_of regs)"
      using b [of "shutdown.priority k"] by (simp add: eq_commute)
  qed
  have sv: "leaderSupervisors (app ?p) = []" and w: "world ?p = w"
    using props by (simp_all add: NewApp_def)
  have d: "world (App_Stop ?p) = fold shutdownFunc (shutdown (app ?p)) w"
    by (simp add: App_Stop_def sv w shutdownAll_eq)
  have e: "world (App_Stop (register_all
            [(''first'', logs_name ''first'', 50), (''second'', logs_name ''second'', 10),
             (''third'', logs_name ''third'', 200), (''fourth'', logs_name ''fourth'', 10)]
            (NewApp []))) = [''second'', ''fourth'', ''first'', ''third'']"
    by (simp add: App_Stop_def NewApp_def RegisterShutdown_def link_def
        shutdownAllAndDeleteAllCanceled_def logs_name_def)
  have f: "world (shutdownAllAndDeleteAllCanceled p) = fold shutdownFunc (shutdown (app p)) (world p)"
    and g: "logged (shutdownAllAndDeleteAllCanceled p) = logged p @ map executed (shutdown (app p))"
    by (simp_all add: shutdownAll_eq)
  from a b c d e f g show ?thesis by blast
qed

text \<open>
  Claim C8. Once \<open>shutdownAllAndDeleteAllCanceled\<close> has run, the hook list is empty, and
  running it again changes nothing: no hook runs and nothing is logged. The same holds
  through \<open>Stop\<close>: after it the list is empty, and a second \<open>Stop\<close> leaves the world the
  hooks act on as the first one left it.
\<close>

theorem shutdown_drains_the_list_once:
  "shutdown (app (shutdownAllAndDeleteAllCanceled p)) = [] \<and>
   shutdownAllAndDeleteAllCanceled (shutdownAllAndDeleteAllCanceled p) =
     shutdownAllAndDeleteAllCanceled p \<and>
   shutdown (app (App_Stop p)) = [] \<and>
   world (App_Stop (App_Stop p)) = world (App_Stop p)"
proof -
  have a: "shutdown (app (shutdownAllAndDeleteAllCanceled p)) = []"
    by (simp add: shutdownAll_eq)
  have b: "shutdownAllAndDeleteAllCanceled (shutdownAllAndDeleteAllCanceled p) =
     shutdownAllAndDeleteAllCanceled p"
    by (simp add: shutdownAll_eq)
  have c: "shutdown (app (App_Stop p)) = []"
    by (simp add: App_Stop_def shutdownAll_eq split: prod.splits)
  obtain svs w l where
    st: "stop_supervisors (leaderSupervisors (app p)) (world p) (logged p) = (svs, w, l)"
    by (cases "stop_supervisors (leaderSupervisors (app p)) (world p) (logged p)") auto
  have idle: "\<forall>sv \<in> set svs. \<not> Working sv"
    using stop_supervisors_Working [OF st] by blast
  have sv1: "leaderSupervisors (app (App_Stop p)) = svs"
    by (simp add: App_Stop_def st shutdownAll_eq)
  obtain svs2 w2 l2 where
    st2: "stop_supervisors svs (world (App_Stop p)) (logged (App_Stop p)) = (svs2, w2, l2)"
    by (cases "stop_supervisors svs (world (App_Stop p)) (logged (App_Stop p))") auto
  have w2: "w2 = world (App_Stop p)"
    using stop_supervisors_idle [OF st2 idle] .
  have d: "world (App_Stop (App_Stop p)) = world (App_Stop p)"
    by (simp add: App_Stop_def [of "App_Stop p"] sv1 st2 w2 shutdownAll_eq c)
  from a b c d show ?thesis by blast
qed

section \<open>Fencing of the lock\<close>

lemma unlockScript_mismatch: "GET db k \<noteq> Some v \<Longrightarrow> unlockScript k v db = (Some 0, db)"
  by (simp add: unlockScript_def)

lemma extendTTLScript_mismatch:
  "GET db k \<noteq> Some v \<Longrightarrow> extendTTLScript k v ms db = (Some 0, db)"
  by (simp add: extendTTLScript_def)

lemma Eval_idle:
  "script db = (Some 0, db) \<Longrightarrow>
   fst (reply (fst (Eval t script db))) = False \<and> snd (Eval t script db) = db"
  by (cases t) (simp_all add: Eval_def reply_def)

text \<open>
  Claim C4. When the value stored under the key is not the caller's value (another holder's
  record, or none at all), \<open>Unlock\<close> and \<open>ExtendLockTTL\<close> return false and leave the store as
  it was, whether the call reaches the server or not. So a call that changes the store was
  made with the stored value.
\<close>

theorem mismatched_token_never_mutates:
  "(GET db (lockKeyPrefix @ key) \<noteq> Some v \<longrightarrow>
      fst (fst (Unlock t key v db)) = False \<and> snd (Unlock t key v db) = db \<and>
      fst (fst (ExtendLockTTL t key v expiration db)) = False \<and>
      snd (ExtendLockTTL t key v expiration db) = db) \<and>
   (snd (Unlock t key v db) \<noteq> db \<or> snd (ExtendLockTTL t key v expiration db) \<noteq> db \<longrightarrow>
      GET db (lockKeyPrefix @ key) = Some v)"
proof -
  have a: "fst (fst (Unlock t key v db)) = False \<and> snd (Unlock t key v db) = db"
    if "GET db (lockKeyPrefix @ key) \<noteq> Some v"
    using Eval_idle [of "unlockScript (lockKeyPrefix @ key) v" db t]
      unlockScript_mismatch [OF that]
    by (simp add: Unlock_def case_prod_beta)
  have b: "fst (fst (ExtendLockTTL t key v expiration db)) = False \<and>
      snd (ExtendLockTTL t key v expiration db) = db"
    if "GET db (lockKeyPrefix @ key) \<noteq> Some v"
    using Eval_idle [of "extendTTLScript (lockKeyPrefix @ key) v (Milliseconds expiration)" db t]
      extendTTLScript_mismatch [OF that]
    by (simp add: ExtendLockTTL_def case_prod_beta)
  from a b show ?thesis by blast
qed

theorem mismatched_token_never_mutates_witness:
  "GET held (lockKeyPrefix @ ''cron'') \<noteq> Some ''stale'' \<and>
   fst (fst (Unlock Delivered ''cron'' ''stale'' held)) = False \<and>
   snd (Unlock Delivered ''cron'' ''stale'' held) = held \<and>
   fst (fst (ExtendLockTTL Delivered ''cron'' ''stale'' 30000000000 held)) = False \<and>
   snd (ExtendLockTTL Delivered ''cron'' ''stale'' 30000000000 held) = held"
proof -
  have h: "GET held (lockKeyPrefix @ ''cron'') \<noteq> Some ''stale''"
    by (simp add: GET_def held_def)
  show ?thesis
    using h mismatched_token_never_mutates [of held "''cron''" "''stale''" Delivered 30000000000]
    by blast
qed

section \<open>The job scheduler\<close>

text \<open>
  Claim C7. \<open>Add\<close> returns an error exactly when the scheduler has started or the name is
  taken, and then leaves the scheduler as it was; otherwise it returns nil and the map
  is the old one with the new job under \<open>cfg.Name\<close>.
\<close>

theorem Add_fails_exactly_when_started_or_duplicate:
  "(fst (JobScheduler_Add c s) \<noteq> None \<longleftrightarrow> started s \<or> Name c \<in> dom (goroutines s)) \<and>
   (fst (JobScheduler_Add c s) \<noteq> None \<longrightarrow> snd (JobScheduler_Add c s) = s) \<and>
   (fst (JobScheduler_Add c s) = None \<longrightarrow>
      goroutines (snd (JobScheduler_Add c s)) = (goroutines s)(Name c \<mapsto> new_job c) \<and>
      dom (goroutines (snd (JobScheduler_Add c s))) = insert (Name c) (dom (goroutines s)) \<and>
      (\<forall>n. n \<noteq> Name c \<longrightarrow> goroutines (snd (JobScheduler_Add c s)) n = goroutines s n) \<and>
      started (snd (JobScheduler_Add c s)) = started s)"
  by (auto simp: JobScheduler_Add_def)

theorem Add_fails_exactly_when_started_or_duplicate_witness:
  "fst (JobScheduler_Add heartbeat (NewJobScheduler 1)) = None \<and>
   goroutines (snd (JobScheduler_Add heartbeat (NewJobScheduler 1))) =
     [''heartbeat'' \<mapsto> new_job heartbeat] \<and>
   fst (JobScheduler_Add heartbeat (snd (JobScheduler_Add heartbeat (NewJobScheduler 1)))) \<noteq> None \<and>
   snd (JobScheduler_Add heartbeat (snd (JobScheduler_Add heartbeat (NewJobScheduler 1)))) =
     snd (JobScheduler_Add heartbeat (NewJobScheduler 1))"
proof -
  let ?s = "NewJobScheduler 1"
  have fresh: "\<not> (started ?s \<or> Name heartbeat \<in> dom (goroutines ?s))"
    by (simp add: NewJobScheduler_def)
  have ok: "fst (JobScheduler_Add heartbeat ?s) = None"
    using fresh Add_fails_exactly_when_started_or_duplicate [of heartbeat ?s] by blast
  have m: "goroutines (snd (JobScheduler_Add heartbeat ?s)) =
       (goroutines ?s)(Name heartbeat \<mapsto> new_job heartbeat)"
    using ok Add_fails_exactly_when_started_or_duplicate [of heartbeat ?s] by blast
  have m': "goroutines (snd (JobScheduler_Add heartbeat ?s)) = [''heartbeat'' \<mapsto> new_job heartbeat]"
    using m by (simp add: NewJobScheduler_def heartbeat_def)
  have taken: "Name heartbeat \<in> dom (goroutines (snd (JobScheduler_Add heartbeat ?s)))"
    using m by simp
  show ?thesis
    using ok m' taken
      Add_fails_exactly_when_started_or_duplicate
        [of heartbeat "snd (JobScheduler_Add heartbeat ?s)"]
    by blast
qed

lemma exec_calls:
  "job.ctx j = Some c \<Longrightarrow> Err h c = None \<Longrightarrow> rate_len s < rate_cap s \<Longrightarrow> exec_ctx j c i = Some c' \<Longrightarrow>
   exec h CaseChan i s j = Finished (fst (recovered j (job.fn j c')), snd (recovered j (job.fn j c')), s)"
  by (simp add: exec_def case_prod_beta)

lemma flaky_facts:
  "job.ctx (started_job flaky) = Some (WithCancel (WithCancel Background 0) 1)"
  "Err [] (WithCancel (WithCancel Background 0) 1) = None"
  "rate_len (NewJobScheduler 1) < rate_cap (NewJobScheduler 1)"
  "exec_ctx (started_job flaky) (WithCancel (WithCancel Background 0) 1) 2 =
     Some (WithTimeout Background 2 2000000000)"
  "job.fn (started_job flaky) (WithTimeout Background 2 2000000000) = Panics (PanicOther ''boom'')"
  "job.name (started_job flaky) = ''A''"
  by (simp_all add: started_job_def flaky_def new_job_def Err_def NewJobScheduler_def
      exec_ctx_def StopImmediate_def StopGraceful_def always_def)

text \<open>
  Claim C5, as the code has it. When the job function panics, \<open>exec\<close> recovers: it logs an
  error that carries the job's name and the panic value, gives the slot of \<open>rate\<close> back and
  returns another error, \<open>panic in job: \<close> followed by the panic value, which carries the
  panic value. \<open>run\<close> logs that error with the job's name as \<open>Args\<close> and goes on with its
  loop.
\<close>

theorem exec_recovers_panic_and_run_goes_on:
  "job.ctx j = Some c \<Longrightarrow> Err h c = None \<Longrightarrow> rate_len s < rate_cap s \<Longrightarrow>
   exec_ctx j c i = Some c' \<Longrightarrow> job.fn j c' = Panics r \<Longrightarrow>
   exec h CaseChan i s j =
     Finished (Some (Errorf (''panic in job: '' @ fmt_v r)),
               [(ErrorLog,
                 \<lparr>Msg = ''Job panic'', Component = ''scheduler'', Method = ''exec'',
                  Args = job.name j,
                  Error = Some (Errorf (''panic in job '' @ job.name j @ '': '' @ fmt_v r))\<rparr>)],
               s) \<and>
   carries (returned_error (exec h CaseChan i s j)) (fmt_v r) \<and>
   carries (Some (Errorf (''panic in job '' @ job.name j @ '': '' @ fmt_v r))) (job.name j) \<and>
   carries (Some (Errorf (''panic in job '' @ job.name j @ '': '' @ fmt_v r))) (fmt_v r) \<and>
   run s nm j (SeesTick h CaseChan i # rest) l =
     run s nm j rest
       (l @ [(ErrorLog,
              \<lparr>Msg = ''Job panic'', Component = ''scheduler'', Method = ''exec'',
               Args = job.name j,
               Error = Some (Errorf (''panic in job '' @ job.name j @ '': '' @ fmt_v r))\<rparr>),
             (ErrorLog,
              \<lparr>Msg = ''Job execution failed'', Component = ''scheduler'', Method = ''run'',
               Args = nm, Error = Some (Errorf (''panic in job: '' @ fmt_v r))\<rparr>)])"
proof -
  assume a: "job.ctx j = Some c" "Err h c = None" "rate_len s < rate_cap s"
    "exec_ctx j c i = Some c'" and p: "job.fn j c' = Panics r"
  have e: "exec h CaseChan i s j =
     Finished (Some (Errorf (''panic in job: '' @ fmt_v r)),
               [(ErrorLog,
                 \<lparr>Msg = ''Job panic'', Component = ''scheduler'', Method = ''exec'',
                  Args = job.name j,
                  Error = Some (Errorf (''panic in job '' @ job.name j @ '': '' @ fmt_v r))\<rparr>)],
               s)"
    using exec_calls [OF a] by (simp add: p recovered_def)
  have c1: "carries (returned_error (exec h CaseChan i s j)) (fmt_v r)"
    using sublist_appendI [of "fmt_v r" "''panic in job: ''" "[]"]
    by (simp add: e returned_error_def carries_def)
  have c2: "carries (Some (Errorf (''panic in job '' @ job.name j @ '': '' @ fmt_v r))) (job.name j)"
    unfolding carries_def using sublist_appendI [of "job.name j" "''panic in job ''" "'': '' @ fmt_v r"]
    by simp
  have c3: "carries (Some (Errorf (''panic in job '' @ job.name j @ '': '' @ fmt_v r))) (fmt_v r)"
    unfolding carries_def
    using sublist_appendI [of "fmt_v r" "''panic in job '' @ job.name j @ '': ''" "[]"]
    by simp
  have r: "run s nm j (SeesTick h CaseChan i # rest) l =
     run s nm j rest
       (l @ [(ErrorLog,
              \<lparr>Msg = ''Job panic'', Component = ''scheduler'', Method = ''exec'',
               Args = job.name j,
               Error = Some (Errorf (''panic in job '' @ job.name j @ '': '' @ fmt_v r))\<rparr>),
             (ErrorLog,
              \<lparr>Msg = ''Job execution failed'', Component = ''scheduler'', Method = ''run'',
               Args = nm, Error = Some (Errorf (''panic in job: '' @ fmt_v r))\<rparr>)])"
    by (simp add: e report_def is_Canceled_def)
  from e c1 c2 c3 r show ?thesis by blast
qed

theorem exec_recovers_panic_and_run_goes_on_witness:
  "job.ctx (started_job flaky) = Some (WithCancel (WithCancel Background 0) 1) \<and>
   Err [] (WithCancel (WithCancel Background 0) 1) = None \<and>
   rate_len (NewJobScheduler 1) < rate_cap (NewJobScheduler 1) \<and>
   exec_ctx (started_job flaky) (WithCancel (WithCancel Background 0) 1) 2 =
     Some (WithTimeout Background 2 2000000000) \<and>
   job.fn (started_job flaky) (WithTimeout Background 2 2000000000) = Panics (PanicOther ''boom'') \<and>
   returned_error (exec [] CaseChan 2 (NewJobScheduler 1) (started_job flaky)) =
     Some (Errorf ''panic in job: boom'') \<and>
   fst (run (NewJobScheduler 1) ''A'' (started_job flaky)
          [SeesTick [] CaseChan 2, SeesTick [] CaseChan 2] []) = Ticking \<and>
   length (snd (snd (run (NewJobScheduler 1) ''A'' (started_job flaky)
          [SeesTick [] CaseChan 2, SeesTick [] CaseChan 2] []))) = 4"
  using flaky_facts
    exec_recovers_panic_and_run_goes_on [OF flaky_facts(1-5), of "''A''" "[SeesTick [] CaseChan 2]" "[]"]
    exec_recovers_panic_and_run_goes_on [OF flaky_facts(1-5), of "''A''" "[]"]
  by (simp add: returned_error_def)

text \<open>
  The error \<open>exec\<close> returns does not carry the job's name: for the job \<open>A\<close> whose function
  panics with \<open>boom\<close> it is \<open>panic in job: boom\<close>.
\<close>

theorem returned_panic_error_lacks_job_name:
  "job.fn (started_job flaky) (WithTimeout Background 2 2000000000) = Panics (PanicOther ''boom'') \<and>
   returned_error (exec [] CaseChan 2 (NewJobScheduler 1) (started_job flaky)) =
     Some (Errorf ''panic in job: boom'') \<and>
   \<not> carries (returned_error (exec [] CaseChan 2 (NewJobScheduler 1) (started_job flaky)))
        (job.name (started_job flaky))"
proof -
  have e: "returned_error (exec [] CaseChan 2 (NewJobScheduler 1) (started_job flaky)) =
     Some (Errorf ''panic in job: boom'')"
    using exec_calls [OF flaky_facts(1-4)]
    by (simp add: flaky_facts recovered_def returned_error_def)
  have n: "\<not> sublist ''A'' ''panic in job: boom''"
    by code_simp
  show ?thesis
    using e n by (simp add: flaky_facts carries_def)
qed

text \<open>
  Claim C6. In an execution that gets to call the job function, a job whose stop mode is
  \<open>StopImmediate\<close> is called with \<open>WithTimeout(j.ctx, j.deadline)\<close>, which is ended whenever
  the job's context is; a job whose stop mode is \<open>StopGraceful\<close> is called with
  \<open>WithTimeout(context.Background(), j.deadline)\<close>, which is ended by its own timer or its own
  cancel function only (or from the start, when the deadline is not positive), whatever
  happens to the job's context.
\<close>

theorem stop_mode_decides_parent_of_deadline_context:
  "job.ctx j = Some c \<Longrightarrow> Err h c = None \<Longrightarrow> rate_len s < rate_cap s \<Longrightarrow>
   (job.stopMode j = StopImmediate \<longrightarrow>
      exec h CaseChan i s j =
        Finished (fst (recovered j (job.fn j (WithTimeout c i (job.deadline j)))),
                  snd (recovered j (job.fn j (WithTimeout c i (job.deadline j)))), s) \<and>
      (\<forall>h'. Done h' c \<longrightarrow> Done h' (WithTimeout c i (job.deadline j)))) \<and>
   (job.stopMode j = StopGraceful \<longrightarrow>
      exec h CaseChan i s j =
        Finished (fst (recovered j (job.fn j (WithTimeout Background i (job.deadline j)))),
                  snd (recovered j (job.fn j (WithTimeout Background i (job.deadline j)))), s) \<and>
      (\<forall>h'. Done h' (WithTimeout Background i (job.deadline j)) \<longleftrightarrow>
              job.deadline j \<le> 0 \<or> CancelCalled i \<in> set h' \<or> TimerFired i \<in> set h'))"
proof -
  assume a: "job.ctx j = Some c" "Err h c = None" "rate_len s < rate_cap s"
  have imm: "exec_ctx j c i = Some (WithTimeout c i (job.deadline j))"
    if "job.stopMode j = StopImmediate"
    using that by (simp add: exec_ctx_def)
  have gr: "exec_ctx j c i = Some (WithTimeout Background i (job.deadline j))"
    if "job.stopMode j = StopGraceful"
    using that by (simp add: exec_ctx_def StopImmediate_def StopGraceful_def)
  show ?thesis
    using exec_calls [OF a imm] exec_calls [OF a gr] Done_WithTimeout Done_graceful
    by blast
qed

theorem stop_mode_decides_parent_of_deadline_context_witness:
  "job.ctx (started_job heartbeat) = Some (WithCancel (WithCancel Background 0) 1) \<and>
   job.ctx (started_job flaky) = Some (WithCancel (WithCancel Background 0) 1) \<and>
   Err [] (WithCancel (WithCancel Background 0) 1) = None \<and>
   rate_len (NewJobScheduler 1) < rate_cap (NewJobScheduler 1) \<and>
   job.stopMode (started_job heartbeat) = StopImmediate \<and>
   job.stopMode (started_job flaky) = StopGraceful \<and>
   exec [] CaseChan 2 (NewJobScheduler 1) (started_job heartbeat) =
     Finished (None, [], NewJobScheduler 1) \<and>
   Done [CancelCalled 1] (WithCancel (WithCancel Background 0) 1) \<and>
   Done [CancelCalled 1] (WithTimeout (WithCancel (WithCancel Background 0) 1) 2 2000000000) \<and>
   \<not> Done [CancelCalled 1] (WithTimeout Background 2 2000000000) \<and>
   Done [CancelCalled 1, TimerFired 2] (WithTimeout Background 2 2000000000)"
proof -
  have hb: "job.ctx (started_job heartbeat) = Some (WithCancel (WithCancel Background 0) 1)"
    "job.stopMode (started_job heartbeat) = StopImmediate"
    "job.deadline (started_job heartbeat) = 2000000000"
    "job.fn (started_job heartbeat) = always (Returns None)"
    by (simp_all add: started_job_def heartbeat_def new_job_def)
  have fl: "job.stopMode (started_job flaky) = StopGraceful"
    "job.deadline (started_job flaky) = 2000000000"
    by (simp_all add: started_job_def flaky_def new_job_def)
  have d: "Done [CancelCalled 1] (WithCancel (WithCancel Background 0) 1)"
    by (simp add: Done_def Err_def)
  show ?thesis
    using hb fl d flaky_facts(1-3)
      stop_mode_decides_parent_of_deadline_context [OF hb(1) flaky_facts(2,3), of 2]
      stop_mode_decides_parent_of_deadline_context [OF flaky_facts(1-3), of 2]
    by (simp add: recovered_def always_def)
qed

section \<open>GoRecover under a cancelled context\<close>

lemma start_jobs_cancelled:
  "start_jobs h c names i jobs = (jobs', gs, l) \<Longrightarrow> Done h c \<Longrightarrow> g \<in> set gs \<Longrightarrow>
   g = CancelledBeforeStart"
  by (induction names arbitrary: i jobs jobs' gs l)
     (auto simp: GoRecover_def Let_def split: option.splits prod.splits)

text \<open>
  Claim C10. When the context is already cancelled as \<open>GoRecover\<close> launches its goroutine,
  then, whatever happens before the goroutine reaches its \<open>select\<close>, the goroutine logs and
  returns: the result does not depend on \<open>fn\<close>, which is not called. So \<open>Start\<close> of a
  scheduler under such a context enters the loop of no job.
\<close>

theorem GoRecover_skips_fn_when_already_cancelled:
  "Done h0 c \<Longrightarrow>
   GoRecover (h0 @ h1) c f =
     (CancelledBeforeStart,
      [(InfoLog, entry ''goroutine cancelled before start'' ''utils'' ''GoRecover'')]) \<and>
   (\<forall>g \<in> set (fst (snd (JobScheduler_Start (h0 @ h1) c names i s))). g = CancelledBeforeStart)"
proof -
  assume "Done h0 c"
  then have d: "Done (h0 @ h1) c" by (rule Done_append)
  have "g = CancelledBeforeStart"
    if "g \<in> set (fst (snd (JobScheduler_Start (h0 @ h1) c names i s)))" for g
    using that start_jobs_cancelled [OF _ d, of names i "goroutines s" _ _ _ g]
    by (auto simp: JobScheduler_Start_def split: if_splits prod.splits)
  with d show ?thesis by (simp add: GoRecover_def)
qed

theorem GoRecover_skips_fn_when_already_cancelled_witness:
  "Done [CancelCalled 0] (WithCancel Background 0) \<and>
   GoRecover ([CancelCalled 0] @ []) (WithCancel Background 0) Inr =
     (CancelledBeforeStart,
      [(InfoLog, entry ''goroutine cancelled before start'' ''utils'' ''GoRecover'')]) \<and>
   fst (snd (JobScheduler_Start ([CancelCalled 0] @ []) (WithCancel Background 0) [''heartbeat''] 1
               (snd (JobScheduler_Add heartbeat (NewJobScheduler 1))))) = [CancelledBeforeStart]"
proof -
  have d: "Done [CancelCalled 0] (WithCancel Background 0)"
    by (simp add: Done_def Err_def)
  have n: "length (fst (snd (JobScheduler_Start ([CancelCalled 0] @ []) (WithCancel Background 0)
               [''heartbeat''] 1 (snd (JobScheduler_Add heartbeat (NewJobScheduler 1)))))) = 1"
    by (simp add: JobScheduler_Start_def JobScheduler_Add_def NewJobScheduler_def heartbeat_def
        GoRecover_def Let_def split: prod.splits)
  show ?thesis
    using d n GoRecover_skips_fn_when_already_cancelled [OF d, of "[]" Inr "[''heartbeat'']" 1
        "snd (JobScheduler_Add heartbeat (NewJobScheduler 1))"]
    by (auto simp: length_Suc_conv)
qed

section \<open>The election watchdog\<close>

lemma codes:
  "TakenAcquire \<noteq> LostAcquire" "LostAcquire \<noteq> TakenAcquire"
  "other TakenAcquire = LostAcquire" "other LostAcquire = TakenAcquire"
  by (simp_all add: TakenAcquire_def LostAcquire_def other_def)

lemma alternates_snoc_both:
  "alternates TakenAcquire (xs @ [x]) =
     (alternates TakenAcquire xs \<and> x = (if even (length xs) then TakenAcquire else LostAcquire)) \<and>
   alternates LostAcquire (xs @ [x]) =
     (alternates LostAcquire xs \<and> x = (if even (length xs) then LostAcquire else TakenAcquire))"
proof (induction xs)
  case Nil
  show ?case by simp
next
  case (Cons a xs)
  then show ?case by (simp add: codes)
qed

lemma alternates_snoc:
  "alternates TakenAcquire (xs @ [x]) =
     (alternates TakenAcquire xs \<and> x = (if even (length xs) then TakenAcquire else LostAcquire))"
  using alternates_snoc_both [of xs x] by blast

lemma alternates_prefix: "alternates e (xs @ ys) \<Longrightarrow> alternates e xs"
  by (induction xs arbitrary: e) simp_all

lemma alternates_butlast: "alternates e xs \<Longrightarrow> alternates e (butlast xs)"
proof (cases "xs = []")
  case True
  then show ?thesis by simp
next
  case False
  assume "alternates e xs"
  with False have "alternates e (butlast xs @ [last xs])" by simp
  then show ?thesis by (rule alternates_prefix)
qed

lemma subseq_snoc_last:
  "xs \<noteq> [] \<Longrightarrow> subseq ds (butlast xs) \<Longrightarrow> subseq (ds @ [last xs]) xs"
proof -
  assume a: "xs \<noteq> []" "subseq ds (butlast xs)"
  have "subseq (ds @ [last xs]) (butlast xs @ [last xs])"
    using a(2) by (rule list_emb_append_mono) simp
  with a(1) show ?thesis by simp
qed

lemma subseq_snoc_right: "subseq ds xs \<Longrightarrow> subseq ds (xs @ [x])"
  by (rule list_emb_prefix)

lemma sound_Elect: "Elect c h uuid conf = Inr s \<Longrightarrow> sound s"
  by (auto simp: Elect_def sound_def split: if_splits)

lemma sound_watcher: "sound (s\<lparr>watcher := w\<rparr>) = sound s"
  by (cases "at s") (simp_all add: sound_def)

lemma sound_Happens: "sound s \<Longrightarrow> sound (s\<lparr>hist := hist s @ [e]\<rparr>)"
proof -
  assume s: "sound s"
  have d: "Done (hist s) (wctx s) \<Longrightarrow> Done (hist s @ [e]) (wctx s)"
    by (rule Done_append)
  show ?thesis
    using s d by (cases "at s") (auto simp: sound_def)
qed

lemma sound_Starts: "sound s \<Longrightarrow> step Starts s = Some s' \<Longrightarrow> sound s'"
  by (cases "at s") (auto simp: step_def sound_def split: if_splits)

lemma sound_LockReturns: "sound s \<Longrightarrow> step (LockReturns ok) s = Some s' \<Longrightarrow> sound s'"
  by (cases "at s"; cases ok)
     (auto simp: step_def sound_def alternates_snoc subseq_snoc_right)

lemma sound_ExtendReturns: "sound s \<Longrightarrow> step (ExtendReturns ok) s = Some s' \<Longrightarrow> sound s'"
  by (cases "at s"; cases ok)
     (auto simp: step_def sound_def alternates_snoc subseq_snoc_right)

lemma sound_TakesTick: "sound s \<Longrightarrow> step TakesTick s = Some s' \<Longrightarrow> sound s'"
  by (cases "at s") (auto simp: step_def sound_def)

lemma sound_Leaves: "sound s \<Longrightarrow> step Leaves s = Some s' \<Longrightarrow> sound s'"
  by (cases "at s") (auto simp: step_def sound_def)

lemma sound_Receives: "sound s \<Longrightarrow> step Receives s = Some s' \<Longrightarrow> sound s'"
  by (cases "watcher s") (auto simp: step_def sound_watcher)

lemma sound_TakesDone: "sound s \<Longrightarrow> step TakesDone s = Some s' \<Longrightarrow> sound s'"
proof (cases "at s")
  case (AtSend ev k)
  assume "sound s" "step TakesDone s = Some s'"
  with AtSend show ?thesis
    by (cases k) (auto simp: step_def sound_def split: if_splits)
next
  case AtLoop
  assume "sound s" "step TakesDone s = Some s'"
  with AtLoop show ?thesis
    by (cases "isLeader s")
       (auto simp: step_def sound_def alternates_snoc subseq_snoc_right split: if_splits)
qed (auto simp: step_def)

lemma sound_TakesSend: "sound s \<Longrightarrow> step TakesSend s = Some s' \<Longrightarrow> sound s'"
proof (cases "at s")
  case (AtSend ev k)
  assume "sound s" "step TakesSend s = Some s'"
  with AtSend show ?thesis
    using subseq_snoc_last [of "sent s" "delivered s"]
    by (cases k) (auto simp: step_def sound_def split: if_splits)
qed (auto simp: step_def)

lemma sound_step: "sound s \<Longrightarrow> step a s = Some s' \<Longrightarrow> sound s'"
proof (cases a)
  case (Happens e)
  assume "sound s" "step a s = Some s'"
  with Happens show ?thesis using sound_Happens [of s e] by (simp add: step_def)
qed (auto intro: sound_Receives sound_Starts sound_LockReturns sound_ExtendReturns
       sound_TakesDone sound_TakesSend sound_TakesTick sound_Leaves)

lemma sound_steps: "sound s \<Longrightarrow> steps as s = Some s' \<Longrightarrow> sound s'"
  by (induction as arbitrary: s) (auto split: option.splits dest: sound_step)

lemma sound_election_after:
  "election_after as (Elect c h uuid conf) = Some s \<Longrightarrow> sound s"
  by (auto simp: election_after_def split: sum.splits dest: sound_Elect sound_steps)

lemma subseq_of_Nil: "subseq xs [] \<Longrightarrow> alternates e xs"
  by (cases xs) simp_all

lemma sound_live_delivered:
  "sound s \<Longrightarrow> \<not> Done (hist s) (wctx s) \<Longrightarrow> alternates TakenAcquire (delivered s)"
  by (cases "at s") (auto simp: sound_def alternates_butlast subseq_of_Nil)

lemma closing_step: "closing s1 s2 \<Longrightarrow> step a s2 = Some s3 \<Longrightarrow> closing s1 s3"
proof (cases a)
  case (Happens e)
  assume "closing s1 s2" "step a s2 = Some s3"
  with Happens show ?thesis
    using Done_append [of "hist s2" "wctx s2" "[e]"]
    by (auto simp: step_def closing_def)
next
  case Receives
  assume "closing s1 s2" "step a s2 = Some s3"
  with Receives show ?thesis
    by (cases "watcher s2") (auto simp: step_def closing_def)
next
  case TakesDone
  assume "closing s1 s2" "step a s2 = Some s3"
  with TakesDone show ?thesis
    by (auto simp: step_def closing_def)
next
  case TakesSend
  assume "closing s1 s2" "step a s2 = Some s3"
  with TakesSend show ?thesis
    by (auto simp: step_def closing_def split: if_splits)
next
  case Leaves
  assume "closing s1 s2" "step a s2 = Some s3"
  with Leaves show ?thesis
    by (auto simp: step_def closing_def)
qed (auto simp: step_def closing_def)

lemma closing_steps: "closing s1 s2 \<Longrightarrow> steps as s2 = Some s3 \<Longrightarrow> closing s1 s3"
  by (induction as arbitrary: s2) (auto split: option.splits dest: closing_step)

lemma steps_append:
  "steps (as @ bs) s = (case steps as s of None \<Rightarrow> None | Some s' \<Rightarrow> steps bs s')"
  by (induction as arbitrary: s) (auto split: option.splits)

lemma election_after_append:
  "election_after (as @ bs) r =
     (case election_after as r of None \<Rightarrow> None | Some s \<Rightarrow> steps bs s)"
  by (cases r) (simp_all add: election_after_def steps_append)

lemmas run_defs = election_after_def cron_election_def Elect_def leading_def step_def Done_def
  Err_def DefaultLeaderExpiration_def

lemmas sched_defs = full_buffer_def waiting_leader_def stopped_leader_def lose_def retake_def

lemma adrift_step:
  assumes "adrift s" "a \<noteq> LockReturns True" "step a s = Some s'"
  shows "adrift s' \<and> filter is_unlock (calls s') = filter is_unlock (calls s)"
proof -
  from assms(1) have d: "Done (hist s) (wctx s)" and base: "\<not> isLeader s" "\<not> closed s"
    by (simp_all add: adrift_def)
  from assms(1) consider (loop) "at s = AtLoop" | (lock) "at s = AtLock"
    by (auto simp: adrift_def)
  then show ?thesis
  proof cases
    case loop
    show ?thesis
    proof (cases a)
      case (Happens e)
      with assms(3) loop base d Done_append [of "hist s" "wctx s" "[e]"] show ?thesis
        by (auto simp: step_def adrift_def)
    next
      case Receives
      with assms(3) loop base d show ?thesis
        by (cases "watcher s") (auto simp: step_def adrift_def)
    qed (use assms(3) loop base d in \<open>auto simp: step_def adrift_def\<close>)
  next
    case lock
    show ?thesis
    proof (cases a)
      case (Happens e)
      with assms(3) lock base d Done_append [of "hist s" "wctx s" "[e]"] show ?thesis
        by (auto simp: step_def adrift_def)
    next
      case Receives
      with assms(3) lock base d show ?thesis
        by (cases "watcher s") (auto simp: step_def adrift_def)
    next
      case (LockReturns ok)
      with assms(2,3) lock base d show ?thesis
        by (cases ok) (auto simp: step_def adrift_def)
    qed (use assms(3) lock base d in \<open>auto simp: step_def adrift_def\<close>)
  qed
qed

lemma adrift_steps:
  "adrift s \<Longrightarrow> LockReturns True \<notin> set acts \<Longrightarrow> steps acts s = Some s' \<Longrightarrow>
   adrift s' \<and> filter is_unlock (calls s') = filter is_unlock (calls s)"
proof (induction acts arbitrary: s)
  case Nil
  then show ?case by simp
next
  case (Cons a acts)
  from Cons.prems(3) obtain s1 where s1: "step a s = Some s1" "steps acts s1 = Some s'"
    by (auto split: option.splits)
  from Cons.prems(2) have n: "a \<noteq> LockReturns True" "LockReturns True \<notin> set acts"
    by auto
  from adrift_step [OF Cons.prems(1) n(1) s1(1)]
  have a1: "adrift s1" and u1: "filter is_unlock (calls s1) = filter is_unlock (calls s)"
    by simp_all
  from Cons.IH [OF a1 n(2) s1(2)] u1 show ?case by simp
qed

text \<open>
  What the goroutine does once its loop has taken \<open>ctx.Done()\<close> with \<open>isLeader\<close> set: it
  calls \<open>Unlock\<close> with a background context, the election's name and its value, clears
  \<open>isLeader\<close> and passes \<open>LostAcquire\<close> to \<open>send\<close>. The context being cancelled, \<open>send\<close>
  may return without delivering the event, and with a full buffer it can do nothing else;
  the goroutine makes no other call and sends nothing else, it can always go on to its
  end, and the channel is closed exactly when the goroutine has left.
\<close>

lemma loop_done_as_leader_unlocks_sends_and_closes:
  "election_after as (Elect c h uuid conf) = Some s \<Longrightarrow> at s = AtLoop \<Longrightarrow> isLeader s \<Longrightarrow>
   cancelled s \<Longrightarrow>
   (\<exists>s1. step TakesDone s = Some s1 \<and>
      calls s1 = calls s @ [UnlockCalled Background (ElectionName (cfg s)) (val s)] \<and>
      \<not> isLeader s1 \<and> sent s1 = sent s @ [LostAcquire] \<and> delivered s1 = delivered s \<and>
      at s1 = AtSend LostAcquire AtReturn \<and> \<not> closed s1 \<and>
      (8 \<le> length (watcher s1) \<longrightarrow> step TakesSend s1 = None) \<and>
      (\<forall>acts s2. steps acts s1 = Some s2 \<longrightarrow>
         calls s2 = calls s1 \<and> sent s2 = sent s1 \<and>
         (delivered s2 = delivered s \<or> delivered s2 = delivered s @ [LostAcquire]) \<and>
         (closed s2 \<longleftrightarrow> at s2 = Exited) \<and>
         (at s2 = AtSend LostAcquire AtReturn \<or> at s2 = AtReturn \<or> at s2 = Exited)) \<and>
      (\<exists>s2. steps [TakesDone, Leaves] s1 = Some s2 \<and> at s2 = Exited \<and> closed s2))"
proof -
  assume r: "election_after as (Elect c h uuid conf) = Some s"
    and l: "at s = AtLoop" "isLeader s" and d: "cancelled s"
  have snd: "sound s" using r by (rule sound_election_after)
  define s1 where "s1 = s\<lparr>calls := calls s @ [UnlockCalled Background (ElectionName (cfg s)) (val s)],
                            isLeader := False, sent := sent s @ [LostAcquire],
                            at := AtSend LostAcquire AtReturn\<rparr>"
  have st: "step TakesDone s = Some s1"
    using l d by (simp add: step_def s1_def cancelled_def)
  have open1: "\<not> closed s1"
    using snd l by (simp add: sound_def s1_def)
  have c: "closing s1 s1"
    using d open1 by (simp add: closing_def s1_def cancelled_def)
  have full: "8 \<le> length (watcher s1) \<longrightarrow> step TakesSend s1 = None"
    by (simp add: step_def s1_def)
  have later: "calls s2 = calls s1 \<and> sent s2 = sent s1 \<and>
         (delivered s2 = delivered s \<or> delivered s2 = delivered s @ [LostAcquire]) \<and>
         (closed s2 \<longleftrightarrow> at s2 = Exited) \<and>
         (at s2 = AtSend LostAcquire AtReturn \<or> at s2 = AtReturn \<or> at s2 = Exited)"
    if "steps acts s1 = Some s2" for acts s2
  proof -
    have "closing s1 s2" using c that by (rule closing_steps)
    moreover have "delivered s1 = delivered s" by (simp add: s1_def)
    ultimately show ?thesis by (auto simp: closing_def)
  qed
  have fin: "steps [TakesDone, Leaves] s1 =
       Some (s1\<lparr>at := AtReturn, closed := True, at := Exited\<rparr>)"
    using d by (simp add: step_def s1_def cancelled_def)
  have ex: "\<exists>s2. steps [TakesDone, Leaves] s1 = Some s2 \<and> at s2 = Exited \<and> closed s2"
    unfolding fin by simp
  have f1: "calls s1 = calls s @ [UnlockCalled Background (ElectionName (cfg s)) (val s)]"
    and f2: "\<not> isLeader s1" and f3: "sent s1 = sent s @ [LostAcquire]"
    and f4: "delivered s1 = delivered s" and f5: "at s1 = AtSend LostAcquire AtReturn"
    by (simp_all add: s1_def)
  have l2: "\<forall>acts s2. steps acts s1 = Some s2 \<longrightarrow>
         calls s2 = calls s1 \<and> sent s2 = sent s1 \<and>
         (delivered s2 = delivered s \<or> delivered s2 = delivered s @ [LostAcquire]) \<and>
         (closed s2 \<longleftrightarrow> at s2 = Exited) \<and>
         (at s2 = AtSend LostAcquire AtReturn \<or> at s2 = AtReturn \<or> at s2 = Exited)"
    using later by blast
  show ?thesis
  proof (rule exI [of _ s1], intro conjI)
  qed (fact st f1 f2 f3 f4 f5 open1 full l2 ex)+
qed

text \<open>
  On that path the final \<open>LostAcquire\<close> need not reach the channel. With a consumer that
  does not receive, the election is leader with a full buffer when the watchdog is
  stopped: the final \<open>send\<close> cannot deliver, and the goroutine leaves with the eight events
  on the channel that were there before. And with room in the buffer, in the run
  \<open>final_dropped\<close>, the \<open>select\<close> of \<open>send\<close> takes \<open>ctx.Done()\<close>: the channel is closed with
  \<open>TakenAcquire\<close> alone on it.
\<close>

lemma final_LostAcquire_not_delivered:
  "election_after (waiting_leader @ [TakesSend]) cron_election = None \<and>
   map_option at (election_after stopped_leader cron_election) = Some AtLoop \<and>
   map_option isLeader (election_after stopped_leader cron_election) = Some True \<and>
   map_option cancelled (election_after stopped_leader cron_election) = Some True \<and>
   map_option delivered (election_after stopped_leader cron_election) =
     Some [TakenAcquire, LostAcquire, TakenAcquire, LostAcquire,
           TakenAcquire, LostAcquire, TakenAcquire, LostAcquire] \<and>
   election_after (stopped_leader @ [TakesDone, TakesSend]) cron_election = None \<and>
   map_option at (election_after (stopped_leader @ [TakesDone, TakesDone, Leaves]) cron_election) =
     Some Exited \<and>
   map_option closed (election_after (stopped_leader @ [TakesDone, TakesDone, Leaves]) cron_election) =
     Some True \<and>
   map_option delivered (election_after (stopped_leader @ [TakesDone, TakesDone, Leaves]) cron_election) =
     Some [TakenAcquire, LostAcquire, TakenAcquire, LostAcquire,
           TakenAcquire, LostAcquire, TakenAcquire, LostAcquire] \<and>
   map_option at (election_after final_dropped cron_election) = Some Exited \<and>
   map_option closed (election_after final_dropped cron_election) = Some True \<and>
   map_option watcher (election_after final_dropped cron_election) = Some [TakenAcquire] \<and>
   map_option delivered (election_after final_dropped cron_election) = Some [TakenAcquire]"
  by (simp add: run_defs sched_defs final_dropped_def cancelled_def)

text \<open>
  Claim C1 fails on the code. In the run \<open>spinning\<close> the election leads when the watchdog is
  stopped, the loop being in a tick: \<open>ExtendLockTTL\<close> returns false, \<open>isLeader\<close> is cleared,
  \<open>send(LostAcquire)\<close> returns through \<open>ctx.Done()\<close>, and the \<open>ctx.Done()\<close> case of the loop
  does nothing when \<open>isLeader\<close> is false. The goroutine has made no call of \<open>Unlock\<close>, has
  delivered no \<open>LostAcquire\<close> and has not closed the channel; taking \<open>ctx.Done()\<close> again
  leaves it where it is, and it cannot leave. By \<open>adrift_steps\<close> it stays so for ever,
  unless a later \<open>Lock\<close> succeeds under the cancelled context.
\<close>

theorem cancelled_leader_neither_unlocks_nor_closes:
  "map_option isLeader (election_after (leading @ [TakesTick]) cron_election) = Some True \<and>
   map_option at (election_after spinning cron_election) = Some AtLoop \<and>
   map_option cancelled (election_after spinning cron_election) = Some True \<and>
   map_option isLeader (election_after spinning cron_election) = Some False \<and>
   map_option closed (election_after spinning cron_election) = Some False \<and>
   map_option calls (election_after spinning cron_election) =
     Some [LockCalled (WithCancel Background 0) ''watchdog_cron'' ''6f1c'' 30000000000,
           ExtendLockTTLCalled (WithCancel Background 0) ''watchdog_cron'' ''6f1c'' 30000000000] \<and>
   map_option delivered (election_after spinning cron_election) = Some [TakenAcquire] \<and>
   election_after (spinning @ [TakesDone]) cron_election = election_after spinning cron_election \<and>
   election_after (spinning @ [Leaves]) cron_election = None"
  by (simp add: run_defs spinning_def cancelled_def)

text \<open>
  Claim C3, as the code has it. In every election the events passed to \<open>send\<close> alternate
  strictly, \<open>TakenAcquire\<close> first, and the delivered events are among them, in order. As
  long as the watchdog's context is not cancelled every event passed to \<open>send\<close> has been
  delivered, but for the one whose \<open>send\<close> is in progress, and that \<open>send\<close> cannot return
  without delivering it; so the delivered events alternate strictly, \<open>TakenAcquire\<close>
  first.
\<close>

theorem delivered_events_alternate_while_context_live:
  "election_after as (Elect c h uuid conf) = Some s \<Longrightarrow>
   alternates TakenAcquire (sent s) \<and>
   subseq (delivered s) (sent s) \<and>
   (\<not> cancelled s \<longrightarrow>
      sent s = delivered s @ pending s \<and>
      alternates TakenAcquire (delivered s) \<and>
      (pending s \<noteq> [] \<longrightarrow> step TakesDone s = None))"
proof -
  assume "election_after as (Elect c h uuid conf) = Some s"
  then have s: "sound s" by (rule sound_election_after)
  then have a: "alternates TakenAcquire (sent s)" and b: "subseq (delivered s) (sent s)"
    by (simp_all add: sound_def)
  have e0: "delivered s = []" if "sent s = []"
    using b that by (cases "delivered s") simp_all
  have c: "sent s = delivered s @ pending s" if "\<not> cancelled s"
    using s that e0
    by (cases "at s") (auto simp: sound_def cancelled_def pending_def)
  have d: "step TakesDone s = None" if "\<not> cancelled s" "pending s \<noteq> []"
    using that by (cases "at s") (auto simp: step_def cancelled_def pending_def)
  have e: "alternates TakenAcquire (delivered s)" if "\<not> cancelled s"
    using sound_live_delivered [OF s] that by (simp add: cancelled_def)
  from a b c d e show ?thesis by blast
qed

theorem delivered_events_alternate_while_context_live_witness:
  "map_option cancelled (election_after lost_once cron_election) = Some False \<and>
   map_option sent (election_after lost_once cron_election) = Some [TakenAcquire, LostAcquire] \<and>
   map_option delivered (election_after lost_once cron_election) =
     Some [TakenAcquire, LostAcquire] \<and>
   alternates TakenAcquire [TakenAcquire, LostAcquire] \<and>
   map_option cancelled (election_after taking cron_election) = Some False \<and>
   map_option pending (election_after taking cron_election) = Some [TakenAcquire] \<and>
   map_option sent (election_after taking cron_election) = Some [TakenAcquire] \<and>
   map_option delivered (election_after taking cron_election) = Some [] \<and>
   election_after (taking @ [TakesDone]) cron_election = None"
proof -
  let ?s = "\<lparr>cfg = \<lparr>ElectionName = ''watchdog_cron'', Expiration = 30000000000\<rparr>,
     val = ''6f1c'', wctx = WithCancel Background 0,
     hist = [], at = AtLoop, isLeader = False, watcher = [TakenAcquire, LostAcquire],
     closed = False, sent = [TakenAcquire, LostAcquire], delivered = [TakenAcquire, LostAcquire],
     calls =
       [LockCalled (WithCancel Background 0) ''watchdog_cron'' ''6f1c'' 30000000000,
        ExtendLockTTLCalled (WithCancel Background 0) ''watchdog_cron'' ''6f1c'' 30000000000]\<rparr>"
  let ?t = "\<lparr>cfg = \<lparr>ElectionName = ''watchdog_cron'', Expiration = 30000000000\<rparr>,
     val = ''6f1c'', wctx = WithCancel Background 0,
     hist = [], at = AtSend TakenAcquire AtLoop, isLeader = True, watcher = [],
     closed = False, sent = [TakenAcquire], delivered = [],
     calls =
       [LockCalled (WithCancel Background 0) ''watchdog_cron'' ''6f1c'' 30000000000]\<rparr>"
  have a: "election_after lost_once
             (Elect (WithCancel Background 0) [] ''6f1c''
                \<lparr>ElectionName = ''watchdog_cron'', Expiration = 0\<rparr>) = Some ?s"
    by (simp add: run_defs lost_once_def)
  have b: "election_after taking
             (Elect (WithCancel Background 0) [] ''6f1c''
                \<lparr>ElectionName = ''watchdog_cron'', Expiration = 0\<rparr>) = Some ?t"
    by (simp add: run_defs taking_def)
  have live: "\<not> cancelled ?s" "\<not> cancelled ?t"
    by (simp_all add: cancelled_def Done_def Err_def)
  have p: "pending ?t = [TakenAcquire]" "pending ?s = []"
    by (simp_all add: pending_def)
  have s: "sent ?s = delivered ?s @ pending ?s \<and> alternates TakenAcquire (delivered ?s)"
    using delivered_events_alternate_while_context_live [OF a] live(1) by blast
  have t: "sent ?t = delivered ?t @ pending ?t \<and> step TakesDone ?t = None"
    using delivered_events_alternate_while_context_live [OF b] live(2) p(1) by simp
  have "election_after (taking @ [TakesDone]) cron_election =
        (case election_after taking cron_election of
           None \<Rightarrow> None | Some s \<Rightarrow> steps [TakesDone] s)"
    by (rule election_after_append)
  also have "\<dots> = None"
    unfolding cron_election_def b using t by simp
  finally have n: "election_after (taking @ [TakesDone]) cron_election = None" .
  show ?thesis
    using a b live p s n by (simp add: cron_election_def)
qed

text \<open>
  After the cancellation a \<open>send\<close> may drop its event, and two delivered events in a row
  can be the same. With a full buffer, the \<open>TakenAcquire\<close> that waits for room is dropped
  when the watchdog is stopped; the consumer then receives one event, and the final
  \<open>LostAcquire\<close> follows the \<open>LostAcquire\<close> delivered last. The run \<open>lost_twice\<close> shows the
  same with room in the buffer.
\<close>

theorem delivered_events_repeat_after_cancel:
  "map_option delivered
     (election_after (stopped_leader @ [TakesDone, Receives, TakesSend]) cron_election) =
     Some [TakenAcquire, LostAcquire, TakenAcquire, LostAcquire,
           TakenAcquire, LostAcquire, TakenAcquire, LostAcquire, LostAcquire] \<and>
   \<not> alternates TakenAcquire
        [TakenAcquire, LostAcquire, TakenAcquire, LostAcquire,
         TakenAcquire, LostAcquire, TakenAcquire, LostAcquire, LostAcquire] \<and>
   map_option delivered (election_after lost_twice cron_election) =
     Some [TakenAcquire, LostAcquire, LostAcquire] \<and>
   \<not> alternates TakenAcquire [TakenAcquire, LostAcquire, LostAcquire]"
  by (simp add: run_defs sched_defs lost_twice_def other_def TakenAcquire_def LostAcquire_def)

section \<open>The readiness barrier\<close>









end
